theory Spec2Isabelle
  imports Main "HOL-Library.Sublist" "HOL-Library.Multiset" "HOL-Library.Word"
    "HOL-Library.Char_ord" "HOL-Library.List_Lexorder"
begin

unbundle bit_operations_syntax

section \<open>The blocked-work report of \<open>gt blocked\<close> (internal/cmd/blocked.go)\<close>

subsection \<open>Data model\<close>

text \<open>
  The fields of \<open>beads.Issue\<close> that blocked.go reads. Go strings are byte sequences,
  so \<open>string\<close> (a list of 8-bit characters) is the model and \<open>length\<close> is Go's \<open>len\<close>.
\<close>

record Issue =
  ID :: string
  Title :: string
  Priority :: int
  BlockedBy :: "string list"

text \<open>
  A Go slice is either nil or a sequence of elements: \<open>None\<close> is the nil slice.
  \<open>len\<close> of nil is 0 and a \<open>range\<close> over nil visits nothing.
\<close>

type_synonym 'a slice = "'a list option"

definition len :: "'a slice \<Rightarrow> nat" where
  "len s = (case s of None \<Rightarrow> 0 | Some xs \<Rightarrow> length xs)"

definition elems :: "'a slice \<Rightarrow> 'a list" where
  "elems s = (case s of None \<Rightarrow> [] | Some xs \<Rightarrow> xs)"

subsection \<open>The substring filter for ephemeral items\<close>

text \<open>\<open>strings.Contains s substr\<close>: \<open>substr\<close> occurs in \<open>s\<close> at some offset.\<close>

fun strings_Contains :: "string \<Rightarrow> string \<Rightarrow> bool" where
  "strings_Contains [] substr = (substr = [])"
| "strings_Contains (c # s) substr = (prefix substr (c # s) \<or> strings_Contains s substr)"

text \<open>
  \<open>filterWispsByID\<close> (lines 296-304): the loop over \<open>issues\<close> appends every issue whose ID
  does not contain \<open>-wisp-\<close> to \<open>filtered\<close>, which starts empty (and not nil).
\<close>

fun filterWispsByID_loop :: "Issue list \<Rightarrow> Issue list \<Rightarrow> Issue list" where
  "filterWispsByID_loop [] filtered = filtered"
| "filterWispsByID_loop (issue # rest) filtered =
     filterWispsByID_loop rest
       (if \<not> strings_Contains (ID issue) ''-wisp-'' then filtered @ [issue] else filtered)"

definition filterWispsByID :: "Issue list \<Rightarrow> Issue list" where
  "filterWispsByID issues = filterWispsByID_loop issues []"


subsection \<open>\<open>sort.Slice\<close> of the Go standard library\<close>

text \<open>
  \<open>data.Swap(i, j)\<close> exchanges two elements of the slice; \<open>data.Less(i, j)\<close> is the
  caller's closure \<open>lessf\<close>, which in blocked.go compares the elements at \<open>i\<close> and \<open>j\<close> of the
  slice being sorted: \<open>lessf (xs ! i) (xs ! j)\<close>.
\<close>

definition swap :: "'a list \<Rightarrow> nat \<Rightarrow> nat \<Rightarrow> 'a list" where
  "swap xs i j = xs[i := xs ! j, j := xs ! i]"

function insertionSort_inner :: "('a \<Rightarrow> 'a \<Rightarrow> bool) \<Rightarrow> 'a list \<Rightarrow> nat \<Rightarrow> nat \<Rightarrow> 'a list" where
  "insertionSort_inner lessf xs a j =
     (if j > a \<and> lessf (xs ! j) (xs ! (j - 1))
      then insertionSort_inner lessf (swap xs j (j - 1)) a (j - 1)
      else xs)"
  by pat_completeness auto
termination
  by (relation "measure (\<lambda>(lessf, xs, a, j). j)") auto

declare insertionSort_inner.simps [simp del]

function insertionSort_outer :: "('a \<Rightarrow> 'a \<Rightarrow> bool) \<Rightarrow> 'a list \<Rightarrow> nat \<Rightarrow> nat \<Rightarrow> nat \<Rightarrow> 'a list" where
  "insertionSort_outer lessf xs a b i =
     (if i < b
      then insertionSort_outer lessf (insertionSort_inner lessf xs a i) a b (i + 1)
      else xs)"
  by pat_completeness auto
termination
  by (relation "measure (\<lambda>(lessf, xs, a, b, i). b - i)") auto

declare insertionSort_outer.simps [simp del]

definition insertionSort_func :: "('a \<Rightarrow> 'a \<Rightarrow> bool) \<Rightarrow> 'a list \<Rightarrow> nat \<Rightarrow> nat \<Rightarrow> 'a list" where
  "insertionSort_func lessf xs a b = insertionSort_outer lessf xs a b (a + 1)"

function siftDown_func :: "('a \<Rightarrow> 'a \<Rightarrow> bool) \<Rightarrow> 'a list \<Rightarrow> nat \<Rightarrow> nat \<Rightarrow> nat \<Rightarrow> 'a list" where
  "siftDown_func lessf xs root hi first =
     (let child = 2 * root + 1 in
      if child \<ge> hi then xs
      else
        let child = (if child + 1 < hi \<and> lessf (xs ! (first + child)) (xs ! (first + child + 1))
                     then child + 1 else child) in
        if \<not> lessf (xs ! (first + root)) (xs ! (first + child)) then xs
        else siftDown_func lessf (swap xs (first + root) (first + child)) child hi first)"
  by pat_completeness auto
termination
  by (relation "measure (\<lambda>(lessf, xs, root, hi, first). hi - root)") (auto simp: Let_def)

declare siftDown_func.simps [simp del]

fun heapSort_build :: "('a \<Rightarrow> 'a \<Rightarrow> bool) \<Rightarrow> 'a list \<Rightarrow> nat \<Rightarrow> nat \<Rightarrow> nat \<Rightarrow> 'a list" where
  "heapSort_build lessf xs hi first 0 = siftDown_func lessf xs 0 hi first"
| "heapSort_build lessf xs hi first (Suc i) =
     heapSort_build lessf (siftDown_func lessf xs (Suc i) hi first) hi first i"

fun heapSort_pop :: "('a \<Rightarrow> 'a \<Rightarrow> bool) \<Rightarrow> 'a list \<Rightarrow> nat \<Rightarrow> nat \<Rightarrow> 'a list" where
  "heapSort_pop lessf xs first 0 = xs"
| "heapSort_pop lessf xs first (Suc i) =
     heapSort_pop lessf (siftDown_func lessf (swap xs first (first + i)) 0 i first) first i"

definition heapSort_func :: "('a \<Rightarrow> 'a \<Rightarrow> bool) \<Rightarrow> 'a list \<Rightarrow> nat \<Rightarrow> nat \<Rightarrow> 'a list" where
  "heapSort_func lessf xs a b =
     (let first = a; hi = b - a;
          xs = heapSort_build lessf xs hi first ((hi - 1) div 2)
      in heapSort_pop lessf xs first hi)"

fun bits_Len :: "nat \<Rightarrow> nat" where
  "bits_Len n = (if n = 0 then 0 else Suc (bits_Len (n div 2)))"

declare bits_Len.simps [simp del]

definition xorshift_Next :: "64 word \<Rightarrow> 64 word" where
  "xorshift_Next r =
     (let r = r XOR push_bit 13 r;
          r = r XOR drop_bit 7 r;
          r = r XOR push_bit 17 r
      in r)"

definition nextPowerOfTwo :: "nat \<Rightarrow> nat" where
  "nextPowerOfTwo length' = 2 ^ bits_Len length'"

function breakPatterns_loop :: "'a list \<Rightarrow> nat \<Rightarrow> nat \<Rightarrow> nat \<Rightarrow> 64 word \<Rightarrow> nat \<Rightarrow> nat \<Rightarrow> 'a list" where
  "breakPatterns_loop xs a length' idx random modulus i =
     (if i < 3 then
        let random = xorshift_Next random;
            other = unat random AND (modulus - 1);
            other = (if other \<ge> length' then other - length' else other)
        in breakPatterns_loop (swap xs (idx + i) (a + other)) a length' idx random modulus (i + 1)
      else xs)"
  by pat_completeness auto
termination
  by (relation "measure (\<lambda>(xs, a, length', idx, random, modulus, i). 3 - i)") auto

declare breakPatterns_loop.simps [simp del]

definition breakPatterns_func :: "'a list \<Rightarrow> nat \<Rightarrow> nat \<Rightarrow> 'a list" where
  "breakPatterns_func xs a b =
     (let length' = b - a in
      if length' \<ge> 8 then
        let random = (word_of_nat length' :: 64 word);
            modulus = nextPowerOfTwo length';
            idx = a + (length' div 4) * 2 - 1
        in breakPatterns_loop xs a length' idx random modulus 0
      else xs)"

datatype sortedHint = unknownHint | increasingHint | decreasingHint

definition order2_func :: "('a \<Rightarrow> 'a \<Rightarrow> bool) \<Rightarrow> 'a list \<Rightarrow> nat \<Rightarrow> nat \<Rightarrow> nat \<Rightarrow> nat \<times> nat \<times> nat" where
  "order2_func lessf xs a b swaps =
     (if lessf (xs ! b) (xs ! a) then (b, a, swaps + 1) else (a, b, swaps))"

definition median_func :: "('a \<Rightarrow> 'a \<Rightarrow> bool) \<Rightarrow> 'a list \<Rightarrow> nat \<Rightarrow> nat \<Rightarrow> nat \<Rightarrow> nat \<Rightarrow> nat \<times> nat" where
  "median_func lessf xs a b c swaps =
     (let (a, b, swaps) = order2_func lessf xs a b swaps;
          (b, c, swaps) = order2_func lessf xs b c swaps;
          (a, b, swaps) = order2_func lessf xs a b swaps
      in (b, swaps))"

definition medianAdjacent_func :: "('a \<Rightarrow> 'a \<Rightarrow> bool) \<Rightarrow> 'a list \<Rightarrow> nat \<Rightarrow> nat \<Rightarrow> nat \<times> nat" where
  "medianAdjacent_func lessf xs a swaps = median_func lessf xs (a - 1) a (a + 1) swaps"

definition choosePivot_func :: "('a \<Rightarrow> 'a \<Rightarrow> bool) \<Rightarrow> 'a list \<Rightarrow> nat \<Rightarrow> nat \<Rightarrow> nat \<times> sortedHint" where
  "choosePivot_func lessf xs a b =
     (let l = b - a;
          swaps = 0;
          i = a + l div 4 * 1;
          j = a + l div 4 * 2;
          k = a + l div 4 * 3;
          (j, swaps) =
            (if l \<ge> 8 then
               let (i, j, k, swaps) =
                     (if l \<ge> 50 then
                        let (i, swaps) = medianAdjacent_func lessf xs i swaps;
                            (j, swaps) = medianAdjacent_func lessf xs j swaps;
                            (k, swaps) = medianAdjacent_func lessf xs k swaps
                        in (i, j, k, swaps)
                      else (i, j, k, swaps))
               in median_func lessf xs i j k swaps
             else (j, swaps))
      in if swaps = 0 then (j, increasingHint)
         else if swaps = 4 * 3 then (j, decreasingHint)
         else (j, unknownHint))"

function reverseRange_loop :: "'a list \<Rightarrow> nat \<Rightarrow> nat \<Rightarrow> 'a list" where
  "reverseRange_loop xs i j =
     (if i < j then reverseRange_loop (swap xs i j) (i + 1) (j - 1) else xs)"
  by pat_completeness auto
termination
  by (relation "measure (\<lambda>(xs, i, j). j - i)") auto

declare reverseRange_loop.simps [simp del]

definition reverseRange_func :: "'a list \<Rightarrow> nat \<Rightarrow> nat \<Rightarrow> 'a list" where
  "reverseRange_func xs a b = reverseRange_loop xs a (b - 1)"

function partialInsertionSort_scan :: "('a \<Rightarrow> 'a \<Rightarrow> bool) \<Rightarrow> 'a list \<Rightarrow> nat \<Rightarrow> nat \<Rightarrow> nat" where
  "partialInsertionSort_scan lessf xs i b =
     (if i < b \<and> \<not> lessf (xs ! i) (xs ! (i - 1))
      then partialInsertionSort_scan lessf xs (i + 1) b
      else i)"
  by pat_completeness auto
termination
  by (relation "measure (\<lambda>(lessf, xs, i, b). b - i)") auto

declare partialInsertionSort_scan.simps [simp del]

function partialInsertionSort_left :: "('a \<Rightarrow> 'a \<Rightarrow> bool) \<Rightarrow> 'a list \<Rightarrow> nat \<Rightarrow> 'a list" where
  "partialInsertionSort_left lessf xs j =
     (if j \<ge> 1 then
        if \<not> lessf (xs ! j) (xs ! (j - 1)) then xs
        else partialInsertionSort_left lessf (swap xs j (j - 1)) (j - 1)
      else xs)"
  by pat_completeness auto
termination
  by (relation "measure (\<lambda>(lessf, xs, j). j)") auto

declare partialInsertionSort_left.simps [simp del]

function partialInsertionSort_right :: "('a \<Rightarrow> 'a \<Rightarrow> bool) \<Rightarrow> 'a list \<Rightarrow> nat \<Rightarrow> nat \<Rightarrow> 'a list" where
  "partialInsertionSort_right lessf xs j b =
     (if j < b then
        if \<not> lessf (xs ! j) (xs ! (j - 1)) then xs
        else partialInsertionSort_right lessf (swap xs j (j - 1)) (j + 1) b
      else xs)"
  by pat_completeness auto
termination
  by (relation "measure (\<lambda>(lessf, xs, j, b). b - j)") auto

declare partialInsertionSort_right.simps [simp del]

function partialInsertionSort_steps ::
  "('a \<Rightarrow> 'a \<Rightarrow> bool) \<Rightarrow> 'a list \<Rightarrow> nat \<Rightarrow> nat \<Rightarrow> nat \<Rightarrow> nat \<Rightarrow> 'a list \<times> bool" where
  "partialInsertionSort_steps lessf xs a b i j =
     (if j < 5 then
        let i = partialInsertionSort_scan lessf xs i b in
        if i = b then (xs, True)
        else if b - a < 50 then (xs, False)
        else
          let xs = swap xs i (i - 1);
              xs = (if i - a \<ge> 2 then partialInsertionSort_left lessf xs (i - 1) else xs);
              xs = (if b - i \<ge> 2 then partialInsertionSort_right lessf xs (i + 1) b else xs)
          in partialInsertionSort_steps lessf xs a b i (j + 1)
      else (xs, False))"
  by pat_completeness auto
termination
proof (relation "measure (\<lambda>(lessf, xs, a, b, i, j). 5 - j)")
  show "wf (measure (\<lambda>(lessf, xs, a, b, i, j). 5 - j))" by (rule wf_measure)
next
  fix lessf :: "'a \<Rightarrow> 'a \<Rightarrow> bool" and xs xs' :: "'a list" and a b i i' j :: nat
  assume "j < 5"
  then show "((lessf, xs', a, b, i', j + 1), lessf, xs, a, b, i, j)
      \<in> measure (\<lambda>(lessf, xs, a, b, i, j). 5 - j)"
    by simp
qed

declare partialInsertionSort_steps.simps [simp del]

definition partialInsertionSort_func ::
  "('a \<Rightarrow> 'a \<Rightarrow> bool) \<Rightarrow> 'a list \<Rightarrow> nat \<Rightarrow> nat \<Rightarrow> 'a list \<times> bool" where
  "partialInsertionSort_func lessf xs a b = partialInsertionSort_steps lessf xs a b (a + 1) 0"


text \<open>
  The two scans of \<open>partition_func\<close> and \<open>partitionEqual_func\<close>:
  \<open>for i <= j && p(i) { i++ }\<close> and \<open>for i <= j && p(j) { j-- }\<close>. Indices are naturals;
  every scan from the right starts with \<open>i \<ge> a + 1\<close>, so \<open>i \<le> j\<close> gives \<open>0 < j\<close> whenever
  the code decrements \<open>j\<close>.
\<close>

function scan_up :: "(nat \<Rightarrow> bool) \<Rightarrow> nat \<Rightarrow> nat \<Rightarrow> nat" where
  "scan_up p i j = (if i \<le> j \<and> p i then scan_up p (i + 1) j else i)"
  by pat_completeness auto
termination
  by (relation "measure (\<lambda>(p, i, j). j + 1 - i)") auto

declare scan_up.simps [simp del]

function scan_down :: "(nat \<Rightarrow> bool) \<Rightarrow> nat \<Rightarrow> nat \<Rightarrow> nat" where
  "scan_down p i j = (if i \<le> j \<and> p j \<and> 0 < j then scan_down p i (j - 1) else j)"
  by pat_completeness auto
termination
  by (relation "measure (\<lambda>(p, i, j). j)") auto

declare scan_down.simps [simp del]

lemma scan_up_bounds: "i \<le> scan_up p i j \<and> scan_up p i j \<le> max i (j + 1)"
proof (induction p i j rule: scan_up.induct)
  case (1 p i j)
  then show ?case by (subst (1 2) scan_up.simps) auto
qed

lemma scan_down_le: "scan_down p i j \<le> j"
proof (induction p i j rule: scan_down.induct)
  case (1 p i j)
  then show ?case by (subst scan_down.simps) auto
qed

lemma scan_down_ge: "min i (j + 1) \<le> scan_down p i j + 1"
proof (induction p i j rule: scan_down.induct)
  case (1 p i j)
  then show ?case by (subst scan_down.simps) auto
qed

function partition_loop ::
  "('a \<Rightarrow> 'a \<Rightarrow> bool) \<Rightarrow> 'a list \<Rightarrow> nat \<Rightarrow> nat \<Rightarrow> nat \<Rightarrow> 'a list \<times> nat" where
  "partition_loop lessf xs a i j =
     (let i = scan_up (\<lambda>i. lessf (xs ! i) (xs ! a)) i j;
          j = scan_down (\<lambda>j. \<not> lessf (xs ! j) (xs ! a)) i j
      in if i > j then (xs, j)
         else partition_loop lessf (swap xs i j) a (i + 1) (j - 1))"
  by pat_completeness auto
termination
proof (relation "measure (\<lambda>(lessf, xs, a, i, j). j + 1 - i)")
  show "wf (measure (\<lambda>(lessf, xs, a, i, j). j + 1 - i))" by (rule wf_measure)
next
  fix lessf :: "'a \<Rightarrow> 'a \<Rightarrow> bool" and xs :: "'a list" and a i j i' j' :: nat
  assume i': "i' = scan_up (\<lambda>i. lessf (xs ! i) (xs ! a)) i j"
    and j': "j' = scan_down (\<lambda>j. \<not> lessf (xs ! j) (xs ! a)) i' j"
    and le: "\<not> j' < i'"
  have "i \<le> i'" "j' \<le> j"
    using scan_up_bounds [of i _ j] scan_down_le [of _ i' j] by (simp_all add: i' j')
  with le show "((lessf, swap xs i' j', a, i' + 1, j' - 1), lessf, xs, a, i, j)
      \<in> measure (\<lambda>(lessf, xs, a, i, j). j + 1 - i)"
    by simp
qed

declare partition_loop.simps [simp del]

definition partition_func ::
  "('a \<Rightarrow> 'a \<Rightarrow> bool) \<Rightarrow> 'a list \<Rightarrow> nat \<Rightarrow> nat \<Rightarrow> nat \<Rightarrow> 'a list \<times> nat \<times> bool" where
  "partition_func lessf xs a b pivot =
     (let xs = swap xs a pivot;
          i = a + 1;
          j = b - 1;
          i = scan_up (\<lambda>i. lessf (xs ! i) (xs ! a)) i j;
          j = scan_down (\<lambda>j. \<not> lessf (xs ! j) (xs ! a)) i j
      in if i > j then (swap xs j a, j, True)
         else
           let xs = swap xs i j;
               (xs, j) = partition_loop lessf xs a (i + 1) (j - 1)
           in (swap xs j a, j, False))"

function partitionEqual_loop ::
  "('a \<Rightarrow> 'a \<Rightarrow> bool) \<Rightarrow> 'a list \<Rightarrow> nat \<Rightarrow> nat \<Rightarrow> nat \<Rightarrow> 'a list \<times> nat" where
  "partitionEqual_loop lessf xs a i j =
     (let i = scan_up (\<lambda>i. \<not> lessf (xs ! a) (xs ! i)) i j;
          j = scan_down (\<lambda>j. lessf (xs ! a) (xs ! j)) i j
      in if i > j then (xs, i)
         else partitionEqual_loop lessf (swap xs i j) a (i + 1) (j - 1))"
  by pat_completeness auto
termination
proof (relation "measure (\<lambda>(lessf, xs, a, i, j). j + 1 - i)")
  show "wf (measure (\<lambda>(lessf, xs, a, i, j). j + 1 - i))" by (rule wf_measure)
next
  fix lessf :: "'a \<Rightarrow> 'a \<Rightarrow> bool" and xs :: "'a list" and a i j i' j' :: nat
  assume i': "i' = scan_up (\<lambda>i. \<not> lessf (xs ! a) (xs ! i)) i j"
    and j': "j' = scan_down (\<lambda>j. lessf (xs ! a) (xs ! j)) i' j"
    and le: "\<not> j' < i'"
  have "i \<le> i'" "j' \<le> j"
    using scan_up_bounds [of i _ j] scan_down_le [of _ i' j] by (simp_all add: i' j')
  with le show "((lessf, swap xs i' j', a, i' + 1, j' - 1), lessf, xs, a, i, j)
      \<in> measure (\<lambda>(lessf, xs, a, i, j). j + 1 - i)"
    by simp
qed

declare partitionEqual_loop.simps [simp del]

definition partitionEqual_func ::
  "('a \<Rightarrow> 'a \<Rightarrow> bool) \<Rightarrow> 'a list \<Rightarrow> nat \<Rightarrow> nat \<Rightarrow> nat \<Rightarrow> 'a list \<times> nat" where
  "partitionEqual_func lessf xs a b pivot =
     (let xs = swap xs a pivot;
          i = a + 1;
          j = b - 1
      in partitionEqual_loop lessf xs a i j)"

lemma partition_loop_bounds:
  "partition_loop lessf xs a i j = (ys, m) \<Longrightarrow> m \<le> j \<and> min i (j + 1) \<le> m + 1"
proof (induction lessf xs a i j arbitrary: ys m rule: partition_loop.induct)
  case (1 lessf xs a i j)
  define i' where "i' = scan_up (\<lambda>i. lessf (xs ! i) (xs ! a)) i j"
  define j' where "j' = scan_down (\<lambda>j. \<not> lessf (xs ! j) (xs ! a)) i' j"
  have b: "i \<le> i'" "j' \<le> j" "min i' (j + 1) \<le> j' + 1" "i' \<le> max i (j + 1)"
    using scan_up_bounds [of i "\<lambda>i. lessf (xs ! i) (xs ! a)" j]
      scan_down_le [of "\<lambda>j. \<not> lessf (xs ! j) (xs ! a)" i' j]
      scan_down_ge [of i' j "\<lambda>j. \<not> lessf (xs ! j) (xs ! a)"]
    by (auto simp: i'_def j'_def)
  from "1.prems" have eq: "(if i' > j' then (xs, j')
      else partition_loop lessf (swap xs i' j') a (i' + 1) (j' - 1)) = (ys, m)"
    unfolding i'_def j'_def by (subst (asm) partition_loop.simps) (simp add: Let_def)
  show ?case
  proof (cases "i' > j'")
    case True
    with eq have "m = j'" by simp
    with b True show ?thesis by auto
  next
    case False
    with eq have "partition_loop lessf (swap xs i' j') a (i' + 1) (j' - 1) = (ys, m)" by simp
    from "1.IH" [OF i'_def j'_def _ this] False
    have "m \<le> j' - 1 \<and> min (i' + 1) (j' - 1 + 1) \<le> m + 1" by simp
    with b False show ?thesis by auto
  qed
qed

lemma partition_func_bounds:
  assumes "a < b" and "partition_func lessf xs a b pivot = (ys, mid, ap)"
  shows "a \<le> mid \<and> mid < b"
proof -
  define xs1 where "xs1 = swap xs a pivot"
  define i where "i = scan_up (\<lambda>i. lessf (xs1 ! i) (xs1 ! a)) (a + 1) (b - 1)"
  define j where "j = scan_down (\<lambda>j. \<not> lessf (xs1 ! j) (xs1 ! a)) i (b - 1)"
  have b: "a + 1 \<le> i" "i \<le> b" "j \<le> b - 1" "i \<le> j + 1"
    using scan_up_bounds [of "a + 1" "\<lambda>i. lessf (xs1 ! i) (xs1 ! a)" "b - 1"] assms(1)
      scan_down_le [of "\<lambda>j. \<not> lessf (xs1 ! j) (xs1 ! a)" i "b - 1"]
      scan_down_ge [of i "b - 1" "\<lambda>j. \<not> lessf (xs1 ! j) (xs1 ! a)"]
    by (auto simp: i_def j_def)
  from assms(2) have eq: "(if i > j then (swap xs1 j a, j, True)
      else (case partition_loop lessf (swap xs1 i j) a (i + 1) (j - 1) of
              (zs, m) \<Rightarrow> (swap zs m a, m, False))) = (ys, mid, ap)"
    unfolding partition_func_def Let_def xs1_def i_def j_def by simp
  show ?thesis
  proof (cases "i > j")
    case True
    with eq have "mid = j" by simp
    with b assms(1) show ?thesis by simp
  next
    case False
    obtain zs m where pl: "partition_loop lessf (swap xs1 i j) a (i + 1) (j - 1) = (zs, m)"
      by (cases "partition_loop lessf (swap xs1 i j) a (i + 1) (j - 1)")
    with False eq have "mid = m" by simp
    with partition_loop_bounds [OF pl] b False assms(1) show ?thesis by auto
  qed
qed

lemma partitionEqual_loop_bounds:
  "partitionEqual_loop lessf xs a i j = (ys, m) \<Longrightarrow> i \<le> m \<and> m \<le> max i (j + 1)"
proof (induction lessf xs a i j arbitrary: ys m rule: partitionEqual_loop.induct)
  case (1 lessf xs a i j)
  define i' where "i' = scan_up (\<lambda>i. \<not> lessf (xs ! a) (xs ! i)) i j"
  define j' where "j' = scan_down (\<lambda>j. lessf (xs ! a) (xs ! j)) i' j"
  have b: "i \<le> i'" "i' \<le> max i (j + 1)" "j' \<le> j"
    using scan_up_bounds [of i "\<lambda>i. \<not> lessf (xs ! a) (xs ! i)" j]
      scan_down_le [of "\<lambda>j. lessf (xs ! a) (xs ! j)" i' j]
    by (auto simp: i'_def j'_def)
  from "1.prems" have eq: "(if i' > j' then (xs, i')
      else partitionEqual_loop lessf (swap xs i' j') a (i' + 1) (j' - 1)) = (ys, m)"
    unfolding i'_def j'_def by (subst (asm) partitionEqual_loop.simps) (simp add: Let_def)
  show ?case
  proof (cases "i' > j'")
    case True
    with eq have "m = i'" by simp
    with b show ?thesis by simp
  next
    case False
    with eq have "partitionEqual_loop lessf (swap xs i' j') a (i' + 1) (j' - 1) = (ys, m)" by simp
    from "1.IH" [OF i'_def j'_def _ this] False
    have "i' + 1 \<le> m \<and> m \<le> max (i' + 1) (j' - 1 + 1)" by simp
    with b False show ?thesis by auto
  qed
qed

lemma partitionEqual_func_bounds:
  assumes "a < b" and "partitionEqual_func lessf xs a b pivot = (ys, mid)"
  shows "a < mid \<and> mid \<le> b"
  using partitionEqual_loop_bounds [of lessf "swap xs a pivot" a "a + 1" "b - 1" ys mid] assms
  by (auto simp: partitionEqual_func_def Let_def)

lemma pdqsort_partitionEqual_decreases:
  assumes "\<not> b - a \<le> (12::nat)" and "(ys, mid) = partitionEqual_func lessf xs a b pivot"
  shows "b - mid < b - a"
proof -
  from assms(1) have "a < b" by simp
  from partitionEqual_func_bounds [OF this assms(2) [symmetric]] show ?thesis by arith
qed

lemma pdqsort_partition_decreases:
  assumes "\<not> b - a \<le> (12::nat)" and "(ys, mid, ap) = partition_func lessf xs a b pivot"
  shows "mid - a < b - a" and "b - (mid + 1) < b - a"
proof -
  from assms(1) have "a < b" by simp
  from partition_func_bounds [OF this assms(2) [symmetric]]
  show "mid - a < b - a" and "b - (mid + 1) < b - a" by arith+
qed

function pdqsort_func ::
  "('a \<Rightarrow> 'a \<Rightarrow> bool) \<Rightarrow> 'a list \<Rightarrow> nat \<Rightarrow> nat \<Rightarrow> nat \<Rightarrow> bool \<Rightarrow> bool \<Rightarrow> 'a list" where
  "pdqsort_func lessf xs a b limit wasBalanced wasPartitioned =
     (let length' = b - a in
      if length' \<le> 12 then insertionSort_func lessf xs a b
      else if limit = 0 then heapSort_func lessf xs a b
      else
        let (xs, limit) =
              (if \<not> wasBalanced then (breakPatterns_func xs a b, limit - 1) else (xs, limit));
            (pivot, hint) = choosePivot_func lessf xs a b;
            (xs, pivot, hint) =
              (if hint = decreasingHint
               then (reverseRange_func xs a b, (b - 1) - (pivot - a), increasingHint)
               else (xs, pivot, hint));
            (xs, isSorted) =
              (if wasBalanced \<and> wasPartitioned \<and> hint = increasingHint
               then partialInsertionSort_func lessf xs a b
               else (xs, False))
        in if isSorted then xs
           else if a > 0 \<and> \<not> lessf (xs ! (a - 1)) (xs ! pivot) then
             let (xs, mid) = partitionEqual_func lessf xs a b pivot
             in pdqsort_func lessf xs mid b limit wasBalanced wasPartitioned
           else
             let (xs, mid, alreadyPartitioned) = partition_func lessf xs a b pivot;
                 wasPartitioned = alreadyPartitioned;
                 leftLen = mid - a;
                 rightLen = b - mid;
                 balanceThreshold = length' div 8
             in if leftLen < rightLen then
                  let wasBalanced = leftLen \<ge> balanceThreshold;
                      xs = pdqsort_func lessf xs a mid limit True True
                  in pdqsort_func lessf xs (mid + 1) b limit wasBalanced wasPartitioned
                else
                  let wasBalanced = rightLen \<ge> balanceThreshold;
                      xs = pdqsort_func lessf xs (mid + 1) b limit True True
                  in pdqsort_func lessf xs a mid limit wasBalanced wasPartitioned)"
  by pat_completeness auto
termination
  apply (relation "measure (\<lambda>(lessf, xs, a, b, limit, wb, wp). b - a)")
  subgoal by simp
  subgoal premises p for lessf xs a b limit wasBalanced wasPartitioned x xa xb y xaa xab ya xac
      xad yaa xae yab xaf xag yac xc xd yad
    using pdqsort_partitionEqual_decreases [of b a xd yad lessf xag xae] p(1,2,15,16) by simp
  subgoal premises p for lessf xs a b limit wasBalanced wasPartitioned x xa xb y xaa xab ya xac
      xad yaa xae yab xaf xag yac xah xai yad xaj yae
    using pdqsort_partition_decreases [of b a xai xaj yae lessf xag xae] p(1,2,15,16,17) by simp
  subgoal premises p for lessf xs a b limit wasBalanced wasPartitioned x xa xb y xaa xab ya xac
      xad yaa xae yab xaf xag yac xah xai yad xaj yae
    using pdqsort_partition_decreases [of b a xai xaj yae lessf xag xae] p(1,2,15,16,17) by simp
  subgoal premises p for lessf xs a b limit wasBalanced wasPartitioned x xa xb y xaa xab ya xac
      xad yaa xae yab xaf xag yac xah xai yad xaj yae
    using pdqsort_partition_decreases [of b a xai xaj yae lessf xag xae] p(1,2,15,16,17) by simp
  subgoal premises p for lessf xs a b limit wasBalanced wasPartitioned x xa xb y xaa xab ya xac
      xad yaa xae yab xaf xag yac xah xai yad xaj yae
    using pdqsort_partition_decreases [of b a xai xaj yae lessf xag xae] p(1,2,15,16,17) by simp
  done

declare pdqsort_func.simps [simp del]

definition sort_Slice :: "('a \<Rightarrow> 'a \<Rightarrow> bool) \<Rightarrow> 'a list \<Rightarrow> 'a list" where
  "sort_Slice lessf xs =
     (let length' = length xs;
          limit = bits_Len length'
      in pdqsort_func lessf xs 0 length' limit True True)"

subsection \<open>Sources, summary and report (blocked.go, lines 50-73)\<close>

record Rig =
  Rig_Name :: string
  Rig_BeadsPath :: string

record BlockedSource =
  Name :: string
  Issues :: "Issue slice"
  Error :: string

record BlockedSummary =
  Total :: int
  BySource :: "string \<rightharpoonup> int"
  P0Count :: int
  P1Count :: int
  P2Count :: int
  P3Count :: int
  P4Count :: int

record BlockedResult =
  Sources :: "BlockedSource list"
  Summary :: BlockedSummary
  TownRoot :: string

text \<open>
  The collaborators of \<open>runBlocked\<close> that live in other packages or files: workspace
  discovery, the rigs configuration, rig discovery, the bead store query
  \<open>beads.New(path).Blocked()\<close>, and the first two stages of the filter pipeline. A failing
  call is \<open>Inl\<close> of the error's message.
\<close>

record 'cfg Env =
  FindFromCwdOrError :: "string + string"
  MayorRigsPath :: "string \<Rightarrow> string"
  LoadRigsConfig :: "string \<Rightarrow> string + 'cfg"
  emptyRigsConfig :: "'cfg"
  DiscoverRigs :: "string \<Rightarrow> 'cfg \<Rightarrow> string + Rig list"
  GetTownBeadsPath :: "string \<Rightarrow> string"
  Blocked :: "string \<Rightarrow> string + Issue list"
  getFormulaNames :: "string \<Rightarrow> string set"
  filterFormulaScaffolds :: "Issue list \<Rightarrow> string set \<Rightarrow> Issue list"
  getWispIDs :: "string \<Rightarrow> string set"
  filterWisps :: "Issue list \<Rightarrow> string set \<Rightarrow> Issue list"

subsection \<open>\<open>runBlocked\<close> (lines 75-213)\<close>

text \<open>Lines 94-106: the loop that keeps the first rig with the requested name.\<close>

fun filterRigs :: "string \<Rightarrow> Rig list \<Rightarrow> Rig list" where
  "filterRigs blockedRig [] = []"
| "filterRigs blockedRig (r # rigs) =
     (if Rig_Name r = blockedRig then [r] else filterRigs blockedRig rigs)"

definition selectRigs :: "string \<Rightarrow> Rig list \<Rightarrow> string + Rig list" where
  "selectRigs blockedRig rigs =
     (if blockedRig \<noteq> '''' then
        let filtered = filterRigs blockedRig rigs in
        if length filtered = 0 then Inl (''rig not found: '' @ blockedRig)
        else Inr filtered
      else Inr rigs)"

text \<open>
  Lines 112-157: one goroutine for the town store when no rig filter is set, and one per
  selected rig. Both goroutine bodies are the same up to the source name and the store path.
\<close>

datatype Task = TownTask | RigTask Rig

definition launchedTasks :: "string \<Rightarrow> Rig list \<Rightarrow> Task list" where
  "launchedTasks blockedRig rigs =
     (if blockedRig = '''' then [TownTask] else []) @ map RigTask rigs"

definition querySource :: "'cfg Env \<Rightarrow> string \<Rightarrow> string \<Rightarrow> BlockedSource" where
  "querySource env name beadsPath =
     (case Blocked env beadsPath of
        Inl err \<Rightarrow> \<lparr>Name = name, Issues = None, Error = err\<rparr>
      | Inr issues \<Rightarrow>
          let formulaNames = getFormulaNames env beadsPath;
              filtered = filterFormulaScaffolds env issues formulaNames;
              wispIDs = getWispIDs env beadsPath;
              filtered = filterWisps env filtered wispIDs
          in \<lparr>Name = name, Issues = Some (filterWispsByID filtered), Error = ''''\<rparr>)"

fun taskSource :: "'cfg Env \<Rightarrow> string \<Rightarrow> Task \<Rightarrow> BlockedSource" where
  "taskSource env townRoot TownTask = querySource env ''town'' (GetTownBeadsPath env townRoot)"
| "taskSource env townRoot (RigTask r) = querySource env (Rig_Name r) (Rig_BeadsPath r)"

text \<open>
  Each goroutine appends its source to \<open>sources\<close> under the mutex, so after \<open>wg.Wait()\<close>
  the slice holds the sources in the order in which the goroutines took the lock. That order
  is \<open>arrival\<close>: the indices of the launched tasks, each once.
\<close>

definition completion_order :: "nat \<Rightarrow> nat list \<Rightarrow> bool" where
  "completion_order n arrival \<longleftrightarrow> mset arrival = mset [0..<n]"

definition collectSources ::
  "'cfg Env \<Rightarrow> string \<Rightarrow> Task list \<Rightarrow> nat list \<Rightarrow> BlockedSource list" where
  "collectSources env townRoot tasks arrival =
     map (\<lambda>k. taskSource env townRoot (tasks ! k)) arrival"

text \<open>Lines 161-169: the comparison closure handed to \<open>sort.Slice\<close> for the sources.\<close>

definition sourceLess :: "BlockedSource \<Rightarrow> BlockedSource \<Rightarrow> bool" where
  "sourceLess si sj =
     (if Name si = ''town'' then True
      else if Name sj = ''town'' then False
      else Name si < Name sj)"

text \<open>Lines 171-175: each source's issues are sorted in place by priority.\<close>

definition issueLess :: "Issue \<Rightarrow> Issue \<Rightarrow> bool" where
  "issueLess ia ib = (Priority ia < Priority ib)"

definition sortSourceIssues :: "BlockedSource \<Rightarrow> BlockedSource" where
  "sortSourceIssues src = src\<lparr>Issues := map_option (sort_Slice issueLess) (Issues src)\<rparr>"

definition sortIssues :: "BlockedSource list \<Rightarrow> BlockedSource list" where
  "sortIssues sources = map sortSourceIssues sources"

text \<open>
  Lines 177-198: the summary. Go's \<open>int\<close> counters are modelled as unbounded integers: they
  count items held in memory.
\<close>

definition countPriority :: "Issue \<Rightarrow> BlockedSummary \<Rightarrow> BlockedSummary" where
  "countPriority issue summary =
     (if Priority issue = 0 then summary\<lparr>P0Count := P0Count summary + 1\<rparr>
      else if Priority issue = 1 then summary\<lparr>P1Count := P1Count summary + 1\<rparr>
      else if Priority issue = 2 then summary\<lparr>P2Count := P2Count summary + 1\<rparr>
      else if Priority issue = 3 then summary\<lparr>P3Count := P3Count summary + 1\<rparr>
      else if Priority issue = 4 then summary\<lparr>P4Count := P4Count summary + 1\<rparr>
      else summary)"

fun summarize_loop :: "BlockedSource list \<Rightarrow> BlockedSummary \<Rightarrow> BlockedSummary" where
  "summarize_loop [] summary = summary"
| "summarize_loop (src # rest) summary =
     (let count = int (len (Issues src));
          summary = summary\<lparr>Total := Total summary + count\<rparr>;
          summary = summary\<lparr>BySource := (BySource summary)(Name src \<mapsto> count)\<rparr>;
          summary = fold countPriority (elems (Issues src)) summary
      in summarize_loop rest summary)"

definition computeSummary :: "BlockedSource list \<Rightarrow> BlockedSummary" where
  "computeSummary sources =
     summarize_loop sources
       \<lparr>Total = 0, BySource = Map.empty, P0Count = 0, P1Count = 0, P2Count = 0,
        P3Count = 0, P4Count = 0\<rparr>"

text \<open>Lines 81-85: a rigs configuration that cannot be loaded is replaced by an empty one.\<close>

definition rigsConfigOrEmpty :: "'cfg Env \<Rightarrow> string \<Rightarrow> 'cfg" where
  "rigsConfigOrEmpty env townRoot =
     (let rigsConfigPath = MayorRigsPath env townRoot in
      case LoadRigsConfig env rigsConfigPath of
        Inl err \<Rightarrow> emptyRigsConfig env
      | Inr rigsConfig \<Rightarrow> rigsConfig)"

text \<open>
  Lines 75-204: \<open>runBlocked\<close> up to the construction of \<open>result\<close>. The first component
  is the list of tasks that were launched (each queries its store once); the second is the
  error returned before any task is launched, or the report.
\<close>

definition buildReport ::
  "'cfg Env \<Rightarrow> string \<Rightarrow> nat list \<Rightarrow> Task list \<times> (string + BlockedResult)" where
  "buildReport env blockedRig arrival =
     (case FindFromCwdOrError env of
        Inl err \<Rightarrow> ([], Inl (''not in a Gas Town workspace: '' @ err))
      | Inr townRoot \<Rightarrow>
          let rigsConfig = rigsConfigOrEmpty env townRoot
          in case DiscoverRigs env townRoot rigsConfig of
               Inl err \<Rightarrow> ([], Inl (''discovering rigs: '' @ err))
             | Inr rigs \<Rightarrow>
                 (case selectRigs blockedRig rigs of
                    Inl err \<Rightarrow> ([], Inl err)
                  | Inr rigs \<Rightarrow>
                      let tasks = launchedTasks blockedRig rigs;
                          sources = collectSources env townRoot tasks arrival;
                          sources = sort_Slice sourceLess sources;
                          sources = sortIssues sources;
                          summary = computeSummary sources
                      in (tasks,
                          Inr \<lparr>Sources = sources, Summary = summary, TownRoot = townRoot\<rparr>)))"

subsection \<open>\<open>printBlockedHuman\<close> (lines 215-292)\<close>

text \<open>The renderers of package \<open>style\<close>, which decorate a string for the terminal.\<close>

record Style =
  style_Bold :: "string \<Rightarrow> string"
  style_Dim :: "string \<Rightarrow> string"
  style_Warning :: "string \<Rightarrow> string"
  style_Error :: "string \<Rightarrow> string"

text \<open>\<open>%d\<close> of \<open>fmt\<close>: decimal digits, with a minus sign for a negative number.\<close>

fun showNat :: "nat \<Rightarrow> string" where
  "showNat n =
     (if n < 10 then [char_of (48 + n)]
      else showNat (n div 10) @ [char_of (48 + n mod 10)])"

declare showNat.simps [simp del]

definition showInt :: "int \<Rightarrow> string" where
  "showInt i = (if i < 0 then ''-'' @ showNat (nat (- i)) else showNat (nat i))"

fun strings_Join :: "string list \<Rightarrow> string \<Rightarrow> string" where
  "strings_Join [] sep = ''''"
| "strings_Join [x] sep = x"
| "strings_Join (x # y # ys) sep = x @ sep @ strings_Join (y # ys) sep"

text \<open>Lines 253-256: \<open>len(title)\<close> counts bytes, and so does the slice \<open>title[:57]\<close>.\<close>

definition truncateTitle :: "string \<Rightarrow> string" where
  "truncateTitle title = (if length title > 60 then take 57 title @ ''...'' else title)"

definition issueLine :: "Style \<Rightarrow> Issue \<Rightarrow> string" where
  "issueLine st issue =
     (let priorityStr = ''P'' @ showInt (Priority issue);
          priorityStyled =
            (if Priority issue = 0 then style_Error st priorityStr
             else if Priority issue = 1 then style_Error st priorityStr
             else if Priority issue = 2 then style_Warning st priorityStr
             else style_Dim st priorityStr);
          title = truncateTitle (Title issue);
          blockedByStr =
            (if length (BlockedBy issue) > 0
             then '' '' @ style_Dim st
                    (''(blocked by: '' @ strings_Join (BlockedBy issue) '', '' @ '')'')
             else '''')
      in ''  ['' @ priorityStyled @ ''] '' @ style_Dim st (ID issue) @ '' '' @ title
         @ blockedByStr)"

definition sourceLines :: "Style \<Rightarrow> BlockedSource \<Rightarrow> string list" where
  "sourceLines st src =
     (if Error src \<noteq> '''' then
        [style_Dim st (Name src @ ''/'') @ '' ''
         @ style_Warning st (''(error: '' @ Error src @ '')'')]
      else
        let count = len (Issues src) in
        if count = 0 then []
        else
          let itemWord = (if count = 1 then ''item'' else ''items'')
          in [style_Bold st (Name src @ ''/'') @ '' ('' @ showInt (int count) @ '' ''
              @ itemWord @ '')'']
             @ map (issueLine st) (elems (Issues src))
             @ [''''])"

definition totalParts :: "BlockedSummary \<Rightarrow> string list" where
  "totalParts summary =
     (if P0Count summary > 0 then [showInt (P0Count summary) @ '' P0''] else []) @
     (if P1Count summary > 0 then [showInt (P1Count summary) @ '' P1''] else []) @
     (if P2Count summary > 0 then [showInt (P2Count summary) @ '' P2''] else []) @
     (if P3Count summary > 0 then [showInt (P3Count summary) @ '' P3''] else []) @
     (if P4Count summary > 0 then [showInt (P4Count summary) @ '' P4''] else [])"

text \<open>
  The output is the list of printed lines, without their final newline. The sign printed in
  the heading is U+1F6AB, four bytes in UTF-8.
\<close>

definition printBlockedHuman :: "Style \<Rightarrow> BlockedResult \<Rightarrow> string list" where
  "printBlockedHuman st result =
     (if Total (Summary result) = 0 then [''No blocked work across town.'']
      else
        [style_Bold st [CHR 0xF0, CHR 0x9F, CHR 0x9A, CHR 0xAB]
         @ '' Blocked work across town:'', '''']
        @ concat (map (sourceLines st) (Sources result))
        @ (let parts = totalParts (Summary result) in
           if length parts > 0
           then [''Total: '' @ showInt (Total (Summary result)) @ '' items blocked (''
                 @ strings_Join parts '', '' @ '')'']
           else [''Total: '' @ showInt (Total (Summary result)) @ '' items blocked'']))"

text \<open>
  Lines 206-212: the report is written to standard output as a JSON document or as the
  human-readable lines. The JSON encoding itself is not modelled, and the write to standard
  output is taken to succeed, so that \<open>enc.Encode\<close> returns no error.
\<close>

datatype Stdout = JSON BlockedResult | Text "string list"

definition runBlocked ::
  "'cfg Env \<Rightarrow> Style \<Rightarrow> bool \<Rightarrow> string \<Rightarrow> nat list \<Rightarrow> Task list \<times> (string + Stdout)" where
  "runBlocked env st blockedJSON blockedRig arrival =
     (case buildReport env blockedRig arrival of
        (tasks, Inl err) \<Rightarrow> (tasks, Inl err)
      | (tasks, Inr result) \<Rightarrow>
          (tasks, Inr (if blockedJSON then JSON result else Text (printBlockedHuman st result))))"

text \<open>
  \<open>Execute\<close> of the root command: the process exits with status 1 when the command returns
  an error, and with status 0 otherwise.
\<close>

definition Execute :: "string + Stdout \<Rightarrow> int" where
  "Execute outcome = (case outcome of Inl err \<Rightarrow> 1 | Inr out \<Rightarrow> 0)"

text \<open>All items of a report, source by source.\<close>

definition reportItems :: "BlockedResult \<Rightarrow> Issue list" where
  "reportItems result = concat (map (\<lambda>src. elems (Issues src)) (Sources result))"

text \<open>The last source of a given name in a list, which is the one whose count the summary keeps.\<close>

definition lastNamed :: "string \<Rightarrow> BlockedSource list \<Rightarrow> BlockedSource option" where
  "lastNamed n sources = find (\<lambda>src. Name src = n) (rev sources)"

text \<open>
  The number of characters of a string in well-formed UTF-8: every byte that is not a
  continuation byte (\<open>10xxxxxx\<close>, 128 to 191) starts one character. Go's \<open>len\<close> counts
  bytes instead.
\<close>

definition utf8_characters :: "string \<Rightarrow> nat" where
  "utf8_characters s =
     length (filter (\<lambda>c. \<not> (128 \<le> (of_char c :: nat) \<and> (of_char c :: nat) < 192)) s)"

subsection \<open>A worked example\<close>

text \<open>
  A town with two rigs. The town store has three blocked items, one of them ephemeral; rig
  \<open>alpha\<close> has two, one with a priority outside 0..4; the store of rig \<open>beta\<close> fails.
\<close>

definition example_rigs :: "Rig list" where
  "example_rigs =
     [\<lparr>Rig_Name = ''alpha'', Rig_BeadsPath = ''/gt/alpha/.beads''\<rparr>,
      \<lparr>Rig_Name = ''beta'', Rig_BeadsPath = ''/gt/beta/.beads''\<rparr>]"

definition example_env :: "unit Env" where
  "example_env =
     \<lparr>FindFromCwdOrError = Inr ''/gt'',
      MayorRigsPath = (\<lambda>townRoot. townRoot @ ''/mayor/rigs.json''),
      LoadRigsConfig = (\<lambda>path. Inl ''no such file''),
      emptyRigsConfig = (),
      DiscoverRigs = (\<lambda>townRoot rigsConfig. Inr example_rigs),
      GetTownBeadsPath = (\<lambda>townRoot. townRoot @ ''/.beads''),
      Blocked = (\<lambda>path.
        if path = ''/gt/.beads'' then
          Inr [\<lparr>ID = ''hq-3'', Title = ''Ship convoy'', Priority = 2, BlockedBy = [''hq-1'']\<rparr>,
               \<lparr>ID = ''hq-wisp-2'', Title = ''Patrol'', Priority = 1, BlockedBy = []\<rparr>,
               \<lparr>ID = ''hq-1'', Title = ''Plan convoy'', Priority = 0, BlockedBy = [''gt-1'']\<rparr>]
        else if path = ''/gt/alpha/.beads'' then
          Inr [\<lparr>ID = ''gt-2'', Title = ''Tidy up'', Priority = 7, BlockedBy = [''gt-1'']\<rparr>,
               \<lparr>ID = ''gt-1'', Title = ''Fix build'', Priority = 1, BlockedBy = [''gt-0'']\<rparr>]
        else Inl ''database is locked''),
      getFormulaNames = (\<lambda>path. {}),
      filterFormulaScaffolds = (\<lambda>issues formulaNames. filter (\<lambda>i. ID i \<notin> formulaNames) issues),
      getWispIDs = (\<lambda>path. {}),
      filterWisps = (\<lambda>issues wispIDs. filter (\<lambda>i. ID i \<notin> wispIDs) issues)\<rparr>"

definition example_style :: Style where
  "example_style =
     \<lparr>style_Bold = (\<lambda>s. s), style_Dim = (\<lambda>s. s), style_Warning = (\<lambda>s. s),
      style_Error = (\<lambda>s. s)\<rparr>"

text \<open>The report when \<open>beta\<close> finishes first, then the town store, then \<open>alpha\<close>.\<close>

definition example_report :: BlockedResult where
  "example_report = projr (snd (buildReport example_env '''' [2, 0, 1]))"

text \<open>
  A town whose only rig is itself named \<open>town\<close>. The town store has three blocked items,
  one with priority 9; the store of the rig fails.
\<close>

definition collision_rigs :: "Rig list" where
  "collision_rigs = [\<lparr>Rig_Name = ''town'', Rig_BeadsPath = ''/gt/town/.beads''\<rparr>]"

definition collision_env :: "unit Env" where
  "collision_env =
     \<lparr>FindFromCwdOrError = Inr ''/gt'',
      MayorRigsPath = (\<lambda>townRoot. townRoot @ ''/mayor/rigs.json''),
      LoadRigsConfig = (\<lambda>path. Inr ()),
      emptyRigsConfig = (),
      DiscoverRigs = (\<lambda>townRoot rigsConfig. Inr collision_rigs),
      GetTownBeadsPath = (\<lambda>townRoot. townRoot @ ''/.beads''),
      Blocked = (\<lambda>path.
        if path = ''/gt/.beads'' then
          Inr [\<lparr>ID = ''hq-7'', Title = ''Archive'', Priority = 9, BlockedBy = [''hq-5'']\<rparr>,
               \<lparr>ID = ''hq-5'', Title = ''Plan'', Priority = 0, BlockedBy = [''hq-6'']\<rparr>,
               \<lparr>ID = ''hq-6'', Title = ''Review'', Priority = 1, BlockedBy = [''hq-4'']\<rparr>]
        else Inl ''database is locked''),
      getFormulaNames = (\<lambda>path. {}),
      filterFormulaScaffolds = (\<lambda>issues formulaNames. filter (\<lambda>i. ID i \<notin> formulaNames) issues),
      getWispIDs = (\<lambda>path. {}),
      filterWisps = (\<lambda>issues wispIDs. filter (\<lambda>i. ID i \<notin> wispIDs) issues)\<rparr>"

text \<open>
  Its reports: without a filter when the town store finishes first, without a filter when
  the rig finishes first, and with the filter \<open>town\<close>.
\<close>

definition collision_report_town_first :: BlockedResult where
  "collision_report_town_first = projr (snd (buildReport collision_env '''' [0, 1]))"

definition collision_report_rig_first :: BlockedResult where
  "collision_report_rig_first = projr (snd (buildReport collision_env '''' [1, 0]))"


section \<open>Properties\<close>

subsection \<open>The substring filter\<close>

lemma strings_Contains_iff: "strings_Contains s substr \<longleftrightarrow> (\<exists>ps ss. s = ps @ substr @ ss)"
proof (induction s)
  case Nil
  then show ?case by auto
next
  case (Cons c s)
  show ?case
  proof
    assume "strings_Contains (c # s) substr"
    then consider "prefix substr (c # s)" | "strings_Contains s substr" by auto
    then show "\<exists>ps ss. c # s = ps @ substr @ ss"
    proof cases
      case 1
      then obtain ss where "c # s = substr @ ss" by (auto simp: prefix_def)
      then have "c # s = [] @ substr @ ss" by simp
      then show ?thesis by blast
    next
      case 2
      with Cons.IH obtain ps ss where "s = ps @ substr @ ss" by blast
      then have "c # s = (c # ps) @ substr @ ss" by simp
      then show ?thesis by blast
    qed
  next
    assume "\<exists>ps ss. c # s = ps @ substr @ ss"
    then obtain ps ss where eq: "c # s = ps @ substr @ ss" by blast
    show "strings_Contains (c # s) substr"
    proof (cases ps)
      case Nil
      with eq have "prefix substr (c # s)" by (simp add: prefix_def)
      then show ?thesis by simp
    next
      case (Cons p ps')
      with eq have "s = ps' @ substr @ ss" by simp
      with Cons.IH have "strings_Contains s substr" by blast
      then show ?thesis by simp
    qed
  qed
qed

lemma filterWispsByID_loop_filter:
  "filterWispsByID_loop issues filtered =
     filtered @ filter (\<lambda>issue. \<not> strings_Contains (ID issue) ''-wisp-'') issues"
  by (induction issues arbitrary: filtered) simp_all

lemma filterWispsByID_filter:
  "filterWispsByID issues = filter (\<lambda>issue. \<not> strings_Contains (ID issue) ''-wisp-'') issues"
  by (simp add: filterWispsByID_def filterWispsByID_loop_filter)

text \<open>
  C5. The substring filter is idempotent, and its output holds exactly the input issues
  whose ID has no occurrence of the marker \<open>-wisp-\<close>: the output is the input with the
  marked issues struck out, and an ID is marked when it can be written as some bytes,
  then \<open>-wisp-\<close>, then some bytes.
\<close>

theorem filterWispsByID_idempotent_exact:
  "filterWispsByID (filterWispsByID issues) = filterWispsByID issues \<and>
   filterWispsByID issues =
     filter (\<lambda>issue. \<not> (\<exists>ps ss. ID issue = ps @ ''-wisp-'' @ ss)) issues \<and>
   set (filterWispsByID issues) =
     {issue \<in> set issues. \<not> (\<exists>ps ss. ID issue = ps @ ''-wisp-'' @ ss)}"
proof -
  have "filterWispsByID issues =
      filter (\<lambda>issue. \<not> (\<exists>ps ss. ID issue = ps @ ''-wisp-'' @ ss)) issues"
    unfolding filterWispsByID_filter strings_Contains_iff ..
  moreover have "filterWispsByID (filterWispsByID issues) = filterWispsByID issues"
    by (simp add: filterWispsByID_filter)
  ultimately show ?thesis by auto
qed

text \<open>
  C9. The output of the substring filter is a subsequence of its input: the survivors are
  input issues in their input order, and no issue occurs more often in the output than in
  the input (so an input without repetitions gives an output without repetitions).
\<close>

theorem filterWispsByID_subseq:
  "subseq (filterWispsByID issues) issues \<and>
   set (filterWispsByID issues) \<subseteq> set issues \<and>
   mset (filterWispsByID issues) \<subseteq># mset issues \<and>
   (distinct issues \<longrightarrow> distinct (filterWispsByID issues))"
proof -
  have "mset (filterWispsByID issues) \<subseteq># mset issues"
    unfolding filterWispsByID_filter mset_filter by (rule multiset_filter_subset)
  then show ?thesis by (auto simp: filterWispsByID_filter)
qed

theorem filterWispsByID_subseq_witness:
  "distinct [\<lparr>ID = ''gt-wisp-1'', Title = ''a'', Priority = 1, BlockedBy = []\<rparr>,
             \<lparr>ID = ''gt-2'', Title = ''b'', Priority = 0, BlockedBy = []\<rparr>] \<and>
   distinct (filterWispsByID
            [\<lparr>ID = ''gt-wisp-1'', Title = ''a'', Priority = 1, BlockedBy = []\<rparr>,
             \<lparr>ID = ''gt-2'', Title = ''b'', Priority = 0, BlockedBy = []\<rparr>])"
  using filterWispsByID_subseq
    [of "[\<lparr>ID = ''gt-wisp-1'', Title = ''a'', Priority = 1, BlockedBy = []\<rparr>,
          \<lparr>ID = ''gt-2'', Title = ''b'', Priority = 0, BlockedBy = []\<rparr>]"]
  by simp

subsection \<open>Sorting permutes the slice\<close>

definition range_perm :: "'a list \<Rightarrow> 'a list \<Rightarrow> nat \<Rightarrow> nat \<Rightarrow> bool" where
  "range_perm xs ys a b \<longleftrightarrow>
     length ys = length xs \<and> mset ys = mset xs \<and>
     (\<forall>k < length xs. k < a \<or> b \<le> k \<longrightarrow> ys ! k = xs ! k)"

lemma length_swap [simp]: "length (swap xs i j) = length xs"
  by (simp add: swap_def)

lemma nth_swap:
  "i < length xs \<Longrightarrow> j < length xs \<Longrightarrow>
   swap xs i j ! k = (if k = j then xs ! i else if k = i then xs ! j else xs ! k)"
  by (simp add: swap_def nth_list_update)

lemma mset_swap_slice: "i < length xs \<Longrightarrow> j < length xs \<Longrightarrow> mset (swap xs i j) = mset xs"
  unfolding swap_def by (simp add: mset_swap)

lemma range_perm_refl [simp]: "range_perm xs xs a b"
  by (simp add: range_perm_def)

lemma range_perm_trans:
  "range_perm xs ys a b \<Longrightarrow> range_perm ys zs a b \<Longrightarrow> range_perm xs zs a b"
  by (simp add: range_perm_def)

lemma range_perm_mono:
  "range_perm xs ys a' b' \<Longrightarrow> a \<le> a' \<Longrightarrow> b' \<le> b \<Longrightarrow> range_perm xs ys a b"
  by (auto simp: range_perm_def)

lemma range_perm_length: "range_perm xs ys a b \<Longrightarrow> length ys = length xs"
  by (simp add: range_perm_def)

lemma range_perm_mset: "range_perm xs ys a b \<Longrightarrow> mset ys = mset xs"
  by (simp add: range_perm_def)

lemma range_perm_swap:
  "a \<le> i \<Longrightarrow> i < b \<Longrightarrow> a \<le> j \<Longrightarrow> j < b \<Longrightarrow> b \<le> length xs \<Longrightarrow>
   range_perm xs (swap xs i j) a b"
  by (auto simp: range_perm_def mset_swap_slice nth_swap)

lemma range_perm_swap_trans:
  "a \<le> i \<Longrightarrow> i < b \<Longrightarrow> a \<le> j \<Longrightarrow> j < b \<Longrightarrow> b \<le> length xs \<Longrightarrow>
   range_perm (swap xs i j) ys a b \<Longrightarrow> range_perm xs ys a b"
  using range_perm_swap range_perm_trans by blast

lemma insertionSort_inner_perm:
  "a \<le> j \<Longrightarrow> j < b \<Longrightarrow> b \<le> length xs \<Longrightarrow>
   range_perm xs (insertionSort_inner lessf xs a j) a b"
proof (induction lessf xs a j rule: insertionSort_inner.induct)
  case (1 lessf xs a j)
  show ?case
  proof (cases "j > a \<and> lessf (xs ! j) (xs ! (j - 1))")
    case True
    from True "1.prems" have j: "a \<le> j - 1" "j - 1 < b" "b \<le> length (swap xs j (j - 1))"
      by auto
    have "range_perm (swap xs j (j - 1)) (insertionSort_inner lessf (swap xs j (j - 1)) a (j - 1)) a b"
      by (rule "1.IH" [OF True j])
    with j "1.prems" have "range_perm xs (insertionSort_inner lessf (swap xs j (j - 1)) a (j - 1)) a b"
      by (rule_tac range_perm_swap_trans [of a j b "j - 1"]) auto
    with True show ?thesis
      by (subst insertionSort_inner.simps) simp
  next
    case False
    then show ?thesis by (subst insertionSort_inner.simps) auto
  qed
qed

lemma insertionSort_outer_perm:
  "a < i \<Longrightarrow> b \<le> length xs \<Longrightarrow> range_perm xs (insertionSort_outer lessf xs a b i) a b"
proof (induction lessf xs a b i rule: insertionSort_outer.induct)
  case (1 lessf xs a b i)
  show ?case
  proof (cases "i < b")
    case True
    with "1.prems" have p: "range_perm xs (insertionSort_inner lessf xs a i) a b"
      by (intro insertionSort_inner_perm) auto
    with 1 True have "range_perm (insertionSort_inner lessf xs a i)
        (insertionSort_outer lessf (insertionSort_inner lessf xs a i) a b (i + 1)) a b"
      by (simp add: range_perm_length)
    with p True show ?thesis
      by (subst insertionSort_outer.simps) (auto intro: range_perm_trans)
  next
    case False
    then show ?thesis by (subst insertionSort_outer.simps) auto
  qed
qed

lemma insertionSort_func_perm:
  "b \<le> length xs \<Longrightarrow> range_perm xs (insertionSort_func lessf xs a b) a b"
  by (simp add: insertionSort_func_def insertionSort_outer_perm)

lemma siftDown_func_perm:
  "first + hi \<le> length xs \<Longrightarrow>
   range_perm xs (siftDown_func lessf xs root hi first) first (first + hi)"
proof (induction lessf xs root hi first rule: siftDown_func.induct)
  case (1 lessf xs root hi first)
  define child0 where "child0 = 2 * root + 1"
  define child where "child = (if child0 + 1 < hi \<and> lessf (xs ! (first + child0)) (xs ! (first + child0 + 1))
                     then child0 + 1 else child0)"
  show ?case
  proof (cases "child0 \<ge> hi \<or> \<not> lessf (xs ! (first + root)) (xs ! (first + child))")
    case True
    then show ?thesis
      by (subst siftDown_func.simps) (auto simp: Let_def child0_def child_def)
  next
    case False
    then have c: "child0 < hi" "child < hi" "root < child"
      by (auto simp: child_def child0_def)
    from False have eq: "siftDown_func lessf xs root hi first =
        siftDown_func lessf (swap xs (first + root) (first + child)) child hi first"
      by (subst siftDown_func.simps) (auto simp: Let_def child0_def child_def)
    from False "1.prems" have "range_perm (swap xs (first + root) (first + child))
        (siftDown_func lessf (swap xs (first + root) (first + child)) child hi first)
        first (first + hi)"
      by (intro "1.IH" [OF child0_def _ child_def]) (auto simp: child0_def)
    with c "1.prems" show ?thesis
      unfolding eq by (rule_tac range_perm_swap_trans [of first "first + root" "first + hi" "first + child"]) auto
  qed
qed

lemma heapSort_build_perm:
  "first + hi \<le> length xs \<Longrightarrow>
   range_perm xs (heapSort_build lessf xs hi first i) first (first + hi)"
proof (induction i arbitrary: xs)
  case 0
  then show ?case by (simp add: siftDown_func_perm)
next
  case (Suc i)
  have p: "range_perm xs (siftDown_func lessf xs (Suc i) hi first) first (first + hi)"
    using Suc.prems by (rule siftDown_func_perm)
  with Suc show ?case
    by (auto intro: range_perm_trans simp: range_perm_length)
qed

lemma heapSort_pop_perm:
  "first + n \<le> length xs \<Longrightarrow>
   range_perm xs (heapSort_pop lessf xs first n) first (first + n)"
proof (induction n arbitrary: xs)
  case 0
  then show ?case by simp
next
  case (Suc i)
  let ?xs1 = "swap xs first (first + i)"
  let ?xs2 = "siftDown_func lessf ?xs1 0 i first"
  have p1: "range_perm xs ?xs1 first (first + Suc i)"
    using Suc.prems by (intro range_perm_swap) auto
  have p2: "range_perm ?xs1 ?xs2 first (first + i)"
    using Suc.prems by (intro siftDown_func_perm) auto
  have p3: "range_perm ?xs2 (heapSort_pop lessf ?xs2 first i) first (first + i)"
    using Suc.prems p2 by (intro Suc.IH) (auto simp: range_perm_length)
  have "range_perm ?xs1 (heapSort_pop lessf ?xs2 first i) first (first + i)"
    using p2 p3 by (rule range_perm_trans)
  then have "range_perm ?xs1 (heapSort_pop lessf ?xs2 first i) first (first + Suc i)"
    by (rule range_perm_mono) simp_all
  with p1 have "range_perm xs (heapSort_pop lessf ?xs2 first i) first (first + Suc i)"
    by (rule range_perm_trans)
  then show ?case by simp
qed

lemma heapSort_func_perm:
  "a \<le> b \<Longrightarrow> b \<le> length xs \<Longrightarrow> range_perm xs (heapSort_func lessf xs a b) a b"
proof -
  assume ab: "a \<le> b" "b \<le> length xs"
  let ?xs1 = "heapSort_build lessf xs (b - a) a ((b - a - 1) div 2)"
  from ab have p1: "range_perm xs ?xs1 a (a + (b - a))"
    by (intro heapSort_build_perm) simp
  with ab have "range_perm ?xs1 (heapSort_pop lessf ?xs1 a (b - a)) a (a + (b - a))"
    by (intro heapSort_pop_perm) (simp add: range_perm_length)
  with p1 have "range_perm xs (heapSort_pop lessf ?xs1 a (b - a)) a (a + (b - a))"
    by (rule range_perm_trans)
  with ab show ?thesis by (simp add: heapSort_func_def Let_def)
qed


lemma bits_Len_pow: "0 < n \<Longrightarrow> 2 ^ bits_Len n \<le> 2 * n"
proof (induction n rule: bits_Len.induct)
  case (1 n)
  show ?case
  proof (cases "n div 2 = 0")
    case True
    with "1.prems" have "n = 1" by auto
    then show ?thesis by (simp add: bits_Len.simps [of "Suc 0"] bits_Len.simps [of 0])
  next
    case False
    with 1 have "2 ^ bits_Len (n div 2) \<le> 2 * (n div 2)" by simp
    with "1.prems" show ?thesis by (subst bits_Len.simps) auto
  qed
qed

lemma reverseRange_loop_perm:
  "a \<le> i \<Longrightarrow> j < b \<Longrightarrow> b \<le> length xs \<Longrightarrow> range_perm xs (reverseRange_loop xs i j) a b"
proof (induction xs i j rule: reverseRange_loop.induct)
  case (1 xs i j)
  show ?case
  proof (cases "i < j")
    case True
    from True "1.prems" have "range_perm (swap xs i j) (reverseRange_loop (swap xs i j) (i + 1) (j - 1)) a b"
      by (intro "1.IH") auto
    with True "1.prems" have "range_perm xs (reverseRange_loop (swap xs i j) (i + 1) (j - 1)) a b"
      by (rule_tac range_perm_swap_trans [of a i b j]) auto
    with True show ?thesis by (subst reverseRange_loop.simps) simp
  next
    case False
    then show ?thesis by (subst reverseRange_loop.simps) simp
  qed
qed

lemma reverseRange_func_perm:
  "a < b \<Longrightarrow> b \<le> length xs \<Longrightarrow> range_perm xs (reverseRange_func xs a b) a b"
  unfolding reverseRange_func_def by (rule reverseRange_loop_perm) auto


lemma and_modulus_less: "(x::nat) AND (2 ^ k - 1) < 2 ^ k"
proof -
  have "x AND (2 ^ k - 1) = take_bit k x"
    by (simp add: take_bit_eq_mask mask_eq_exp_minus_1)
  then show ?thesis by simp
qed

lemma breakPatterns_other:
  fixes x n :: nat
  assumes "0 < n" and "other = x AND (nextPowerOfTwo n - 1)"
  shows "(if other \<ge> n then other - n else other) < n"
proof -
  have "other < 2 ^ bits_Len n"
    unfolding assms(2) nextPowerOfTwo_def by (rule and_modulus_less)
  with bits_Len_pow [OF assms(1)] show ?thesis by auto
qed

lemma breakPatterns_loop_perm:
  assumes "a \<le> idx" and "idx + 2 < a + n" and "a + n \<le> length xs" and "0 < n"
  shows "range_perm xs (breakPatterns_loop xs a n idx random (nextPowerOfTwo n) i) a (a + n)"
  using assms
proof (induction xs a n idx random "nextPowerOfTwo n" i rule: breakPatterns_loop.induct)
  case (1 xs a n idx random i)
  show ?case
  proof (cases "i < 3")
    case True
    define random' where "random' = xorshift_Next random"
    define other0 where "other0 = unat random' AND (nextPowerOfTwo n - 1)"
    define other where "other = (if other0 \<ge> n then other0 - n else other0)"
    have o: "other < n"
      unfolding other_def using breakPatterns_other [OF \<open>0 < n\<close> other0_def] by simp
    have eq: "breakPatterns_loop xs a n idx random (nextPowerOfTwo n) i =
        breakPatterns_loop (swap xs (idx + i) (a + other)) a n idx random' (nextPowerOfTwo n) (i + 1)"
      using True by (subst breakPatterns_loop.simps) (simp add: Let_def random'_def other0_def other_def)
    have "range_perm (swap xs (idx + i) (a + other))
        (breakPatterns_loop (swap xs (idx + i) (a + other)) a n idx random' (nextPowerOfTwo n) (i + 1))
        a (a + n)"
      using True "1.prems"
      by (intro "1.hyps" [OF True random'_def other0_def other_def]) auto
    with True "1.prems" o show ?thesis
      unfolding eq by (rule_tac range_perm_swap_trans [of a "idx + i" "a + n" "a + other"]) auto
  next
    case False
    then show ?thesis by (subst breakPatterns_loop.simps) simp
  qed
qed

lemma breakPatterns_func_perm:
  assumes "a \<le> b" and "b \<le> length xs"
  shows "range_perm xs (breakPatterns_func xs a b) a b"
proof (cases "b - a \<ge> 8")
  case True
  with assms have "range_perm xs (breakPatterns_loop xs a (b - a) (a + ((b - a) div 4) * 2 - 1)
      (word_of_nat (b - a)) (nextPowerOfTwo (b - a)) 0) a (a + (b - a))"
    by (intro breakPatterns_loop_perm) auto
  with True assms show ?thesis by (simp add: breakPatterns_func_def Let_def)
next
  case False
  then show ?thesis by (simp add: breakPatterns_func_def Let_def)
qed

lemma scan_up_perm_bounds: "i \<le> j + 1 \<Longrightarrow> scan_up p i j \<le> j + 1"
  using scan_up_bounds [of i p j] by auto

lemma partition_loop_perm:
  "lo \<le> i \<Longrightarrow> j < b \<Longrightarrow> b \<le> length xs \<Longrightarrow> partition_loop lessf xs a i j = (ys, m) \<Longrightarrow>
   range_perm xs ys lo b"
proof (induction lessf xs a i j arbitrary: ys m rule: partition_loop.induct)
  case (1 lessf xs a i j)
  define i' where "i' = scan_up (\<lambda>i. lessf (xs ! i) (xs ! a)) i j"
  define j' where "j' = scan_down (\<lambda>j. \<not> lessf (xs ! j) (xs ! a)) i' j"
  have b: "i \<le> i'" "j' \<le> j"
    using scan_up_bounds [of i "\<lambda>i. lessf (xs ! i) (xs ! a)" j]
      scan_down_le [of "\<lambda>j. \<not> lessf (xs ! j) (xs ! a)" i' j]
    by (auto simp: i'_def j'_def)
  from "1.prems" have eq: "(if i' > j' then (xs, j')
      else partition_loop lessf (swap xs i' j') a (i' + 1) (j' - 1)) = (ys, m)"
    unfolding i'_def j'_def by (subst (asm) partition_loop.simps) (simp add: Let_def)
  show ?case
  proof (cases "i' > j'")
    case True
    with eq show ?thesis by simp
  next
    case False
    with eq have e: "partition_loop lessf (swap xs i' j') a (i' + 1) (j' - 1) = (ys, m)" by simp
    from False b "1.prems" have "range_perm (swap xs i' j') ys lo b"
      by (intro "1.IH" [OF i'_def j'_def _ _ _ _ e]) auto
    with False b "1.prems" show ?thesis
      by (rule_tac range_perm_swap_trans [of lo i' b j']) auto
  qed
qed

lemma partition_func_perm:
  assumes "a \<le> pivot" and "pivot < b" and "b \<le> length xs"
    and "partition_func lessf xs a b pivot = (ys, mid, ap)"
  shows "range_perm xs ys a b"
proof -
  define xs1 where "xs1 = swap xs a pivot"
  define i where "i = scan_up (\<lambda>i. lessf (xs1 ! i) (xs1 ! a)) (a + 1) (b - 1)"
  define j where "j = scan_down (\<lambda>j. \<not> lessf (xs1 ! j) (xs1 ! a)) i (b - 1)"
  from assms have ab: "a < b" by simp
  have b: "a + 1 \<le> i" "i \<le> b" "j \<le> b - 1" "i \<le> j + 1"
    using scan_up_bounds [of "a + 1" "\<lambda>i. lessf (xs1 ! i) (xs1 ! a)" "b - 1"] ab
      scan_down_le [of "\<lambda>j. \<not> lessf (xs1 ! j) (xs1 ! a)" i "b - 1"]
      scan_down_ge [of i "b - 1" "\<lambda>j. \<not> lessf (xs1 ! j) (xs1 ! a)"]
    by (auto simp: i_def j_def)
  from assms(4) have eq: "(if i > j then (swap xs1 j a, j, True)
      else (case partition_loop lessf (swap xs1 i j) a (i + 1) (j - 1) of
              (zs, m) \<Rightarrow> (swap zs m a, m, False))) = (ys, mid, ap)"
    unfolding partition_func_def Let_def xs1_def i_def j_def by simp
  have p1: "range_perm xs xs1 a b"
    unfolding xs1_def using assms ab by (intro range_perm_swap) auto
  show ?thesis
  proof (cases "i > j")
    case True
    with eq have "ys = swap xs1 j a" by auto
    moreover have "range_perm xs1 (swap xs1 j a) a b"
      using b ab assms(3) True by (intro range_perm_swap) (auto simp: xs1_def)
    ultimately show ?thesis using p1 by (auto intro: range_perm_trans)
  next
    case False
    obtain zs m where pl: "partition_loop lessf (swap xs1 i j) a (i + 1) (j - 1) = (zs, m)"
      by (cases "partition_loop lessf (swap xs1 i j) a (i + 1) (j - 1)")
    with False eq have ys: "ys = swap zs m a" by auto
    have p2: "range_perm xs1 (swap xs1 i j) a b"
      using b ab assms(3) False by (intro range_perm_swap) (auto simp: xs1_def)
    have p3: "range_perm (swap xs1 i j) zs a b"
      using b ab assms(3) False by (intro partition_loop_perm [OF _ _ _ pl]) (auto simp: xs1_def)
    have m: "m \<le> j - 1" "min (i + 1) (j - 1 + 1) \<le> m + 1"
      using partition_loop_bounds [OF pl] by auto
    have "length zs = length xs"
      using p3 by (simp add: range_perm_length xs1_def)
    then have p4: "range_perm zs (swap zs m a) a b"
      using m b ab assms(3) False by (intro range_perm_swap) auto
    from p1 p2 p3 p4 show ?thesis unfolding ys by (blast intro: range_perm_trans)
  qed
qed

lemma partitionEqual_loop_perm:
  "lo \<le> i \<Longrightarrow> j < b \<Longrightarrow> b \<le> length xs \<Longrightarrow> partitionEqual_loop lessf xs a i j = (ys, m) \<Longrightarrow>
   range_perm xs ys lo b"
proof (induction lessf xs a i j arbitrary: ys m rule: partitionEqual_loop.induct)
  case (1 lessf xs a i j)
  define i' where "i' = scan_up (\<lambda>i. \<not> lessf (xs ! a) (xs ! i)) i j"
  define j' where "j' = scan_down (\<lambda>j. lessf (xs ! a) (xs ! j)) i' j"
  have b: "i \<le> i'" "j' \<le> j"
    using scan_up_bounds [of i "\<lambda>i. \<not> lessf (xs ! a) (xs ! i)" j]
      scan_down_le [of "\<lambda>j. lessf (xs ! a) (xs ! j)" i' j]
    by (auto simp: i'_def j'_def)
  from "1.prems" have eq: "(if i' > j' then (xs, i')
      else partitionEqual_loop lessf (swap xs i' j') a (i' + 1) (j' - 1)) = (ys, m)"
    unfolding i'_def j'_def by (subst (asm) partitionEqual_loop.simps) (simp add: Let_def)
  show ?case
  proof (cases "i' > j'")
    case True
    with eq show ?thesis by simp
  next
    case False
    with eq have e: "partitionEqual_loop lessf (swap xs i' j') a (i' + 1) (j' - 1) = (ys, m)" by simp
    from False b "1.prems" have "range_perm (swap xs i' j') ys lo b"
      by (intro "1.IH" [OF i'_def j'_def _ _ _ _ e]) auto
    with False b "1.prems" show ?thesis
      by (rule_tac range_perm_swap_trans [of lo i' b j']) auto
  qed
qed

lemma partitionEqual_func_perm:
  assumes "a \<le> pivot" and "pivot < b" and "b \<le> length xs"
    and "partitionEqual_func lessf xs a b pivot = (ys, mid)"
  shows "range_perm xs ys a b"
proof -
  have p1: "range_perm xs (swap xs a pivot) a b"
    using assms by (intro range_perm_swap) auto
  from assms(4) have "partitionEqual_loop lessf (swap xs a pivot) a (a + 1) (b - 1) = (ys, mid)"
    by (simp add: partitionEqual_func_def Let_def)
  with assms have "range_perm (swap xs a pivot) ys a b"
    by (intro partitionEqual_loop_perm [of a "a + 1" "b - 1" b _ lessf a ys mid]) auto
  with p1 show ?thesis by (rule range_perm_trans)
qed


lemma order2_func_cases:
  "order2_func lessf xs a b s = (x, y, s') \<Longrightarrow> (x = a \<and> y = b) \<or> (x = b \<and> y = a)"
  by (auto simp: order2_func_def split: if_splits)

lemma median_func_in: "fst (median_func lessf xs a b c s) \<in> {a, b, c}"
proof -
  obtain a1 b1 s1 where o1: "order2_func lessf xs a b s = (a1, b1, s1)"
    by (cases "order2_func lessf xs a b s")
  obtain b2 c2 s2 where o2: "order2_func lessf xs b1 c s1 = (b2, c2, s2)"
    by (cases "order2_func lessf xs b1 c s1")
  obtain a3 b3 s3 where o3: "order2_func lessf xs a1 b2 s2 = (a3, b3, s3)"
    by (cases "order2_func lessf xs a1 b2 s2")
  have "fst (median_func lessf xs a b c s) = b3"
    by (simp add: median_func_def o1 o2 o3)
  with order2_func_cases [OF o1] order2_func_cases [OF o2] order2_func_cases [OF o3]
  show ?thesis by auto
qed

lemma medianAdjacent_func_in: "fst (medianAdjacent_func lessf xs a s) \<in> {a - 1, a, a + 1}"
  unfolding medianAdjacent_func_def by (rule median_func_in)

lemma choosePivot_func_bounds:
  assumes "12 < b - a"
  shows "a \<le> fst (choosePivot_func lessf xs a b) \<and> fst (choosePivot_func lessf xs a b) < b"
proof -
  define i where "i = a + (b - a) div 4"
  define j where "j = a + (b - a) div 4 * 2"
  define k where "k = a + (b - a) div 4 * 3"
  obtain i1 s1 where m1: "medianAdjacent_func lessf xs i 0 = (i1, s1)"
    by (cases "medianAdjacent_func lessf xs i 0")
  obtain j1 s2 where m2: "medianAdjacent_func lessf xs j s1 = (j1, s2)"
    by (cases "medianAdjacent_func lessf xs j s1")
  obtain k1 s3 where m3: "medianAdjacent_func lessf xs k s2 = (k1, s3)"
    by (cases "medianAdjacent_func lessf xs k s2")
  have in1: "i1 \<in> {i - 1, i, i + 1}" "j1 \<in> {j - 1, j, j + 1}" "k1 \<in> {k - 1, k, k + 1}"
    using medianAdjacent_func_in [of lessf xs i 0] medianAdjacent_func_in [of lessf xs j s1]
      medianAdjacent_func_in [of lessf xs k s2] by (simp_all add: m1 m2 m3)
  have ijk: "a < i" "i \<le> j" "j \<le> k" "k + 1 < b"
    using assms by (auto simp: i_def j_def k_def)
  show ?thesis
  proof (cases "b - a \<ge> 50")
    case True
    obtain p s4 where m4: "median_func lessf xs i1 j1 k1 s3 = (p, s4)"
      by (cases "median_func lessf xs i1 j1 k1 s3")
    from True have "fst (choosePivot_func lessf xs a b) = p"
      by (simp add: choosePivot_func_def Let_def m1 [unfolded i_def] m2 [unfolded j_def]
          m3 [unfolded k_def] m4)
    with median_func_in [of lessf xs i1 j1 k1 s3] in1 ijk m4 show ?thesis by auto
  next
    case False
    obtain p s4 where m4: "median_func lessf xs i j k 0 = (p, s4)"
      by (cases "median_func lessf xs i j k 0")
    from False assms have "fst (choosePivot_func lessf xs a b) = p"
      by (simp add: choosePivot_func_def Let_def m4 [unfolded i_def j_def k_def])
    with median_func_in [of lessf xs i j k 0] ijk m4 show ?thesis by auto
  qed
qed

lemma partialInsertionSort_scan_bounds:
  "i \<le> partialInsertionSort_scan lessf xs i b \<and> partialInsertionSort_scan lessf xs i b \<le> max i b"
proof (induction lessf xs i b rule: partialInsertionSort_scan.induct)
  case (1 lessf xs i b)
  then show ?case by (subst (1 2) partialInsertionSort_scan.simps) auto
qed

lemma partialInsertionSort_left_perm:
  "j < b \<Longrightarrow> b \<le> length xs \<Longrightarrow> range_perm xs (partialInsertionSort_left lessf xs j) 0 b"
proof (induction lessf xs j rule: partialInsertionSort_left.induct)
  case (1 lessf xs j)
  show ?case
  proof (cases "j \<ge> 1 \<and> lessf (xs ! j) (xs ! (j - 1))")
    case True
    with "1.prems" have "range_perm (swap xs j (j - 1))
        (partialInsertionSort_left lessf (swap xs j (j - 1)) (j - 1)) 0 b"
      by (intro "1.IH") auto
    with True "1.prems" have "range_perm xs
        (partialInsertionSort_left lessf (swap xs j (j - 1)) (j - 1)) 0 b"
      by (rule_tac range_perm_swap_trans [of 0 j b "j - 1"]) auto
    with True show ?thesis by (subst partialInsertionSort_left.simps) simp
  next
    case False
    then show ?thesis by (subst partialInsertionSort_left.simps) auto
  qed
qed

lemma partialInsertionSort_right_perm:
  "1 \<le> j \<Longrightarrow> b \<le> length xs \<Longrightarrow> range_perm xs (partialInsertionSort_right lessf xs j b) 0 b"
proof (induction lessf xs j b rule: partialInsertionSort_right.induct)
  case (1 lessf xs j b)
  show ?case
  proof (cases "j < b \<and> lessf (xs ! j) (xs ! (j - 1))")
    case True
    with "1.prems" have "range_perm (swap xs j (j - 1))
        (partialInsertionSort_right lessf (swap xs j (j - 1)) (j + 1) b) 0 b"
      by (intro "1.IH") auto
    with True "1.prems" have "range_perm xs
        (partialInsertionSort_right lessf (swap xs j (j - 1)) (j + 1) b) 0 b"
      by (rule_tac range_perm_swap_trans [of 0 j b "j - 1"]) auto
    with True show ?thesis by (subst partialInsertionSort_right.simps) simp
  next
    case False
    then show ?thesis by (subst partialInsertionSort_right.simps) auto
  qed
qed

lemma partialInsertionSort_steps_perm:
  "1 \<le> i \<Longrightarrow> i \<le> b \<Longrightarrow> b \<le> length xs \<Longrightarrow>
   range_perm xs (fst (partialInsertionSort_steps lessf xs a b i j)) 0 b"
proof (induction lessf xs a b i j rule: partialInsertionSort_steps.induct)
  case (1 lessf xs a b i j)
  define i' where "i' = partialInsertionSort_scan lessf xs i b"
  define xs1 where "xs1 = swap xs i' (i' - 1)"
  define xs2 where "xs2 = (if i' - a \<ge> 2 then partialInsertionSort_left lessf xs1 (i' - 1) else xs1)"
  define xs3 where "xs3 = (if b - i' \<ge> 2 then partialInsertionSort_right lessf xs2 (i' + 1) b else xs2)"
  have i': "i \<le> i'" "i' \<le> b"
    using partialInsertionSort_scan_bounds [of i lessf xs b] "1.prems" by (auto simp: i'_def)
  show ?case
  proof (cases "j < 5 \<and> i' \<noteq> b \<and> \<not> b - a < 50")
    case True
    then have eq: "partialInsertionSort_steps lessf xs a b i j =
        partialInsertionSort_steps lessf xs3 a b i' (j + 1)"
      unfolding xs3_def xs2_def xs1_def i'_def
      by (subst partialInsertionSort_steps.simps) (simp add: Let_def)
    from True i' have lt: "i' < b" by simp
    have p1: "range_perm xs xs1 0 b"
      unfolding xs1_def using lt i' "1.prems" by (intro range_perm_swap) auto
    have p2: "range_perm xs1 xs2 0 b"
      unfolding xs2_def using lt "1.prems" p1
      by (auto intro!: partialInsertionSort_left_perm simp: range_perm_length)
    have p3: "range_perm xs2 xs3 0 b"
      unfolding xs3_def using lt "1.prems" p1 p2
      by (auto intro!: partialInsertionSort_right_perm simp: range_perm_length)
    have p123: "range_perm xs xs3 0 b"
      using p1 p2 p3 by (blast intro: range_perm_trans)
    have "range_perm xs3 (fst (partialInsertionSort_steps lessf xs3 a b i' (j + 1))) 0 b"
      using True i' "1.prems" p123
      by (intro "1.IH" [OF _ i'_def _ _ xs1_def xs2_def xs3_def]) (auto simp: range_perm_length)
    with p123 show ?thesis unfolding eq by (rule range_perm_trans)
  next
    case False
    then have "fst (partialInsertionSort_steps lessf xs a b i j) = xs"
      unfolding i'_def
      by (subst partialInsertionSort_steps.simps) (auto simp: Let_def)
    then show ?thesis by simp
  qed
qed

lemma partialInsertionSort_func_perm:
  "a < b \<Longrightarrow> b \<le> length xs \<Longrightarrow>
   range_perm xs (fst (partialInsertionSort_func lessf xs a b)) 0 b"
  unfolding partialInsertionSort_func_def by (rule partialInsertionSort_steps_perm) auto

lemma range_perm_widen_trans:
  "range_perm xs ys a1 b1 \<Longrightarrow> range_perm ys zs a2 b2 \<Longrightarrow>
   a \<le> a1 \<Longrightarrow> a \<le> a2 \<Longrightarrow> b1 \<le> b \<Longrightarrow> b2 \<le> b \<Longrightarrow> range_perm xs zs a b"
  by (auto simp: range_perm_def)

lemma pdqsort_func_unfold:
  assumes "\<not> b - a \<le> 12" and "limit \<noteq> 0"
    and "(if \<not> wasBalanced then (breakPatterns_func xs a b, limit - 1) else (xs, limit)) =
           (xs1, limit1)"
    and "choosePivot_func lessf xs1 a b = (pivot0, hint0)"
    and "(if hint0 = decreasingHint
          then (reverseRange_func xs1 a b, (b - 1) - (pivot0 - a), increasingHint)
          else (xs1, pivot0, hint0)) = (xs2, pivot, hint)"
    and "(if wasBalanced \<and> wasPartitioned \<and> hint = increasingHint
          then partialInsertionSort_func lessf xs2 a b else (xs2, False)) = (xs3, isSorted)"
  shows "pdqsort_func lessf xs a b limit wasBalanced wasPartitioned =
     (if isSorted then xs3
      else if a > 0 \<and> \<not> lessf (xs3 ! (a - 1)) (xs3 ! pivot) then
        (case partitionEqual_func lessf xs3 a b pivot of
           (xs4, mid) \<Rightarrow> pdqsort_func lessf xs4 mid b limit1 wasBalanced wasPartitioned)
      else
        (case partition_func lessf xs3 a b pivot of
           (xs4, mid, alreadyPartitioned) \<Rightarrow>
             if mid - a < b - mid
             then pdqsort_func lessf (pdqsort_func lessf xs4 a mid limit1 True True) (mid + 1) b
                    limit1 (mid - a \<ge> (b - a) div 8) alreadyPartitioned
             else pdqsort_func lessf (pdqsort_func lessf xs4 (mid + 1) b limit1 True True) a mid
                    limit1 (b - mid \<ge> (b - a) div 8) alreadyPartitioned))"
  by (subst pdqsort_func.simps, unfold Let_def) (simp add: assms)

lemma pdqsort_func_mset:
  "a \<le> b \<Longrightarrow> b \<le> length xs \<Longrightarrow>
   range_perm xs (pdqsort_func lessf xs a b limit wasBalanced wasPartitioned) 0 b"
proof (induction lessf xs a b limit wasBalanced wasPartitioned rule: pdqsort_func.induct)
  case (1 lessf xs a b limit wasBalanced wasPartitioned)
  note ab = "1.prems"
  show ?case
  proof (cases "b - a \<le> 12 \<or> limit = 0")
    case True
    have "range_perm xs (insertionSort_func lessf xs a b) a b"
      using ab by (intro insertionSort_func_perm)
    moreover have "range_perm xs (heapSort_func lessf xs a b) a b"
      using ab by (intro heapSort_func_perm)
    ultimately show ?thesis using True
      by (subst pdqsort_func.simps) (auto simp: Let_def intro: range_perm_mono)
  next
    case False
    then have len: "\<not> b - a \<le> 12" and lim: "limit \<noteq> 0" and len': "12 < b - a" and lt: "a < b"
      by auto
    obtain xs1 limit1 where e1: "(xs1, limit1) =
        (if \<not> wasBalanced then (breakPatterns_func xs a b, limit - 1) else (xs, limit))"
      by (metis surj_pair)
    obtain pivot0 hint0 where e2: "(pivot0, hint0) = choosePivot_func lessf xs1 a b"
      by (metis surj_pair)
    obtain xs2 pivot hint where e3: "(xs2, pivot, hint) =
        (if hint0 = decreasingHint
         then (reverseRange_func xs1 a b, (b - 1) - (pivot0 - a), increasingHint)
         else (xs1, pivot0, hint0))"
      by (metis surj_pair)
    obtain xs3 isSorted where e4: "(xs3, isSorted) =
        (if wasBalanced \<and> wasPartitioned \<and> hint = increasingHint
         then partialInsertionSort_func lessf xs2 a b else (xs2, False))"
      by (metis surj_pair)
    note unf = pdqsort_func_unfold [OF len lim e1 [symmetric] e2 [symmetric] e3 [symmetric]
        e4 [symmetric]]
    have p1: "range_perm xs xs1 a b"
      using e1 ab by (auto split: if_splits intro: breakPatterns_func_perm)
    then have l1: "length xs1 = length xs" by (rule range_perm_length)
    have pv0: "a \<le> pivot0" "pivot0 < b"
      using choosePivot_func_bounds [OF len', of lessf xs1] e2 [symmetric] by auto
    have p2: "range_perm xs1 xs2 a b"
      using e3 ab l1 lt by (auto split: if_splits intro!: reverseRange_func_perm)
    then have l2: "length xs2 = length xs" using l1 by (simp add: range_perm_length)
    have pv: "a \<le> pivot" "pivot < b"
      using e3 pv0 by (auto split: if_splits)
    have p3: "range_perm xs2 xs3 0 b"
    proof (cases "wasBalanced \<and> wasPartitioned \<and> hint = increasingHint")
      case True
      with e4 have "xs3 = fst (partialInsertionSort_func lessf xs2 a b)"
        by (metis fst_conv)
      then show ?thesis using partialInsertionSort_func_perm [OF lt, of xs2 lessf] ab l2 by simp
    next
      case False
      with e4 show ?thesis by simp
    qed
    then have l3: "length xs3 = length xs" using l2 by (simp add: range_perm_length)
    have p12: "range_perm xs xs2 a b" using p1 p2 by (rule range_perm_trans)
    have p123: "range_perm xs xs3 0 b"
      using p12 p3 by (rule range_perm_widen_trans) simp_all
    show ?thesis
    proof (cases isSorted)
      case True
      with unf have "pdqsort_func lessf xs a b limit wasBalanced wasPartitioned = xs3" by simp
      with p123 show ?thesis by simp
    next
      case notsorted: False
      show ?thesis
      proof (cases "a > 0 \<and> \<not> lessf (xs3 ! (a - 1)) (xs3 ! pivot)")
        case True
        obtain xs4 mid where e5: "(xs4, mid) = partitionEqual_func lessf xs3 a b pivot"
          by (metis surj_pair)
        have eq: "pdqsort_func lessf xs a b limit wasBalanced wasPartitioned =
            pdqsort_func lessf xs4 mid b limit1 wasBalanced wasPartitioned"
          using unf notsorted True e5 [symmetric] by simp
        have p4: "range_perm xs3 xs4 a b"
          using partitionEqual_func_perm [OF pv(1) pv(2) _ e5 [symmetric]] ab l3 by simp
        have m: "a < mid" "mid \<le> b"
          using partitionEqual_func_bounds [OF lt e5 [symmetric]] by auto
        have p1234: "range_perm xs xs4 0 b"
          using p123 p4 by (rule range_perm_widen_trans) simp_all
        have "range_perm xs4 (pdqsort_func lessf xs4 mid b limit1 wasBalanced wasPartitioned) 0 b"
          using "1.IH"(1) [OF refl len lim refl e1 refl e2 refl e3 refl refl e4 notsorted True refl e5]
            m ab p4 l3
          by (simp add: range_perm_length)
        with p1234 show ?thesis unfolding eq by (rule range_perm_trans)
      next
        case noteq: False
        obtain xs4 mid alreadyPartitioned where
          e5: "(xs4, mid, alreadyPartitioned) = partition_func lessf xs3 a b pivot"
          by (metis surj_pair)
        have p4: "range_perm xs3 xs4 a b"
          using partition_func_perm [OF pv(1) pv(2) _ e5 [symmetric]] ab l3 by simp
        then have l4: "length xs4 = length xs" using l3 by (simp add: range_perm_length)
        have p1234: "range_perm xs xs4 0 b"
          using p123 p4 by (rule range_perm_widen_trans) simp_all
        have m: "a \<le> mid" "mid < b"
          using partition_func_bounds [OF lt e5 [symmetric]] by auto
        show ?thesis
        proof (cases "mid - a < b - mid")
          case True
          define xs5 where "xs5 = pdqsort_func lessf xs4 a mid limit1 True True"
          have eq: "pdqsort_func lessf xs a b limit wasBalanced wasPartitioned =
              pdqsort_func lessf xs5 (mid + 1) b limit1 (mid - a \<ge> (b - a) div 8) alreadyPartitioned"
            using unf notsorted noteq True e5 [symmetric] by (auto simp: xs5_def)
          have p5: "range_perm xs4 xs5 0 mid"
            unfolding xs5_def
            using "1.IH"(2) [OF refl len lim refl e1 refl e2 refl e3 refl refl e4 notsorted noteq
                refl e5 refl refl refl refl refl True refl] m ab l4
            by simp
          then have l5: "length xs5 = length xs" using l4 by (simp add: range_perm_length)
          have p6: "range_perm xs5 (pdqsort_func lessf xs5 (mid + 1) b limit1
              (mid - a \<ge> (b - a) div 8) alreadyPartitioned) 0 b"
            using "1.IH"(3) [OF refl len lim refl e1 refl e2 refl e3 refl refl e4 notsorted noteq
                refl e5 refl refl refl refl refl True refl xs5_def] m ab l5
            by simp
          have "range_perm xs xs5 0 b"
            using p1234 p5 m by (rule_tac range_perm_widen_trans [of xs xs4 0 b xs5 0 mid]) simp_all
          then show ?thesis unfolding eq using p6 by (rule range_perm_trans)
        next
          case False
          define xs5 where "xs5 = pdqsort_func lessf xs4 (mid + 1) b limit1 True True"
          have eq: "pdqsort_func lessf xs a b limit wasBalanced wasPartitioned =
              pdqsort_func lessf xs5 a mid limit1 (b - mid \<ge> (b - a) div 8) alreadyPartitioned"
            using unf notsorted noteq False e5 [symmetric] by (auto simp: xs5_def)
          have p5: "range_perm xs4 xs5 0 b"
            unfolding xs5_def
            using "1.IH"(4) [OF refl len lim refl e1 refl e2 refl e3 refl refl e4 notsorted noteq
                refl e5 refl refl refl refl refl False refl] m ab l4
            by simp
          then have l5: "length xs5 = length xs" using l4 by (simp add: range_perm_length)
          have p6: "range_perm xs5 (pdqsort_func lessf xs5 a mid limit1
              (b - mid \<ge> (b - a) div 8) alreadyPartitioned) 0 mid"
            using "1.IH"(5) [OF refl len lim refl e1 refl e2 refl e3 refl refl e4 notsorted noteq
                refl e5 refl refl refl refl refl False refl xs5_def] m ab l5
            by simp
          have "range_perm xs xs5 0 b"
            using p1234 p5 by (rule range_perm_trans)
          then show ?thesis unfolding eq using p6 m
            by (rule_tac range_perm_widen_trans [of xs xs5 0 b _ 0 mid]) simp_all
        qed
      qed
    qed
  qed
qed

lemma sort_Slice_mset [simp]: "mset (sort_Slice lessf xs) = mset xs"
  using pdqsort_func_mset [of 0 "length xs" xs lessf "bits_Len (length xs)" True True]
  by (simp add: sort_Slice_def Let_def range_perm_def)

lemma sort_Slice_length [simp]: "length (sort_Slice lessf xs) = length xs"
  using sort_Slice_mset [of lessf xs] by (metis size_mset)

lemma sort_Slice_set [simp]: "set (sort_Slice lessf xs) = set xs"
  using sort_Slice_mset [of lessf xs] by (metis set_mset_mset)

subsection \<open>The summary loop\<close>

lemma len_elems: "len s = length (elems s)"
  by (cases s) (simp_all add: len_def elems_def)

lemma fold_countPriority_keeps:
  "Total (fold countPriority issues s) = Total s \<and>
   BySource (fold countPriority issues s) = BySource s"
  by (induction issues arbitrary: s) (simp_all add: countPriority_def)

lemma fold_countPriority_counts:
  "P0Count (fold countPriority issues s) =
     P0Count s + int (length (filter (\<lambda>i. Priority i = 0) issues)) \<and>
   P1Count (fold countPriority issues s) =
     P1Count s + int (length (filter (\<lambda>i. Priority i = 1) issues)) \<and>
   P2Count (fold countPriority issues s) =
     P2Count s + int (length (filter (\<lambda>i. Priority i = 2) issues)) \<and>
   P3Count (fold countPriority issues s) =
     P3Count s + int (length (filter (\<lambda>i. Priority i = 3) issues)) \<and>
   P4Count (fold countPriority issues s) =
     P4Count s + int (length (filter (\<lambda>i. Priority i = 4) issues))"
  by (induction issues arbitrary: s) (simp_all add: countPriority_def)

lemma summarize_loop_Total:
  "Total (summarize_loop sources s) = Total s + (\<Sum>src\<leftarrow>sources. int (len (Issues src)))"
  by (induction sources arbitrary: s) (simp_all add: Let_def fold_countPriority_keeps)

lemma summarize_loop_counts:
  "P0Count (summarize_loop sources s) =
     P0Count s + int (length (filter (\<lambda>i. Priority i = 0) (concat (map (\<lambda>src. elems (Issues src)) sources)))) \<and>
   P1Count (summarize_loop sources s) =
     P1Count s + int (length (filter (\<lambda>i. Priority i = 1) (concat (map (\<lambda>src. elems (Issues src)) sources)))) \<and>
   P2Count (summarize_loop sources s) =
     P2Count s + int (length (filter (\<lambda>i. Priority i = 2) (concat (map (\<lambda>src. elems (Issues src)) sources)))) \<and>
   P3Count (summarize_loop sources s) =
     P3Count s + int (length (filter (\<lambda>i. Priority i = 3) (concat (map (\<lambda>src. elems (Issues src)) sources)))) \<and>
   P4Count (summarize_loop sources s) =
     P4Count s + int (length (filter (\<lambda>i. Priority i = 4) (concat (map (\<lambda>src. elems (Issues src)) sources))))"
  by (induction sources arbitrary: s) (simp_all add: Let_def fold_countPriority_counts)

lemma summarize_loop_dom:
  "dom (BySource (summarize_loop sources s)) = dom (BySource s) \<union> set (map Name sources)"
  by (induction sources arbitrary: s) (auto simp: Let_def fold_countPriority_keeps)

lemma summarize_loop_other:
  "n \<notin> set (map Name sources) \<Longrightarrow> BySource (summarize_loop sources s) n = BySource s n"
  by (induction sources arbitrary: s) (auto simp: Let_def fold_countPriority_keeps)

lemma summarize_loop_BySource:
  "distinct (map Name sources) \<Longrightarrow> src \<in> set sources \<Longrightarrow>
   BySource (summarize_loop sources s) (Name src) = Some (int (len (Issues src)))"
proof (induction sources arbitrary: s)
  case Nil
  then show ?case by simp
next
  case (Cons x sources)
  show ?case
  proof (cases "src = x")
    case True
    with Cons.prems have "Name src \<notin> set (map Name sources)" by auto
    with True show ?thesis
      by (simp add: Let_def summarize_loop_other fold_countPriority_keeps)
  next
    case False
    with Cons show ?thesis by (simp add: Let_def)
  qed
qed

lemma find_append_case:
  "find P (xs @ ys) = (case find P xs of None \<Rightarrow> find P ys | Some x \<Rightarrow> Some x)"
  by (induction xs) simp_all

lemma lastNamed_Cons:
  "lastNamed n (src # rest) =
     (case lastNamed n rest of None \<Rightarrow> (if Name src = n then Some src else None)
      | Some x \<Rightarrow> Some x)"
  by (simp add: lastNamed_def find_append_case split: option.splits)

lemma summarize_loop_lastNamed:
  "BySource (summarize_loop sources s) n =
     (case lastNamed n sources of None \<Rightarrow> BySource s n
      | Some src \<Rightarrow> Some (int (len (Issues src))))"
proof (induction sources arbitrary: s)
  case Nil
  show ?case by (simp add: lastNamed_def)
next
  case (Cons x sources)
  show ?case
    by (simp add: Let_def Cons.IH lastNamed_Cons fold_countPriority_keeps split: option.splits)
qed

lemma lastNamed_Some:
  "lastNamed n sources = Some src \<Longrightarrow> src \<in> set sources \<and> Name src = n"
proof (induction sources)
  case Nil
  then show ?case by (simp add: lastNamed_def)
next
  case (Cons x sources)
  then show ?case
    by (auto simp: lastNamed_Cons split: option.splits if_splits)
qed

lemma lastNamed_None: "lastNamed n sources = None \<longleftrightarrow> n \<notin> set (map Name sources)"
  unfolding lastNamed_def by (auto simp: find_None_iff)

lemma lastNamed_distinct:
  "distinct (map Name sources) \<Longrightarrow> src \<in> set sources \<Longrightarrow>
   lastNamed (Name src) sources = Some src"
proof -
  assume d: "distinct (map Name sources)" and m: "src \<in> set sources"
  from m have "lastNamed (Name src) sources \<noteq> None"
    by (simp add: lastNamed_None)
  then obtain y where y: "lastNamed (Name src) sources = Some y" by blast
  from lastNamed_Some [OF y] have "y \<in> set sources" "Name y = Name src" by simp_all
  with d m have "y = src" by (meson distinct_map inj_onD)
  with y show ?thesis by simp
qed

lemma sum_list_filter_zero:
  "(\<And>x. x \<in> set xs \<Longrightarrow> \<not> P x \<Longrightarrow> f x = (0::int)) \<Longrightarrow>
   sum_list (map f xs) = sum_list (map f (filter P xs))"
  by (induction xs) auto

lemma length_concat_sum: "int (length (concat xss)) = (\<Sum>xs\<leftarrow>xss. int (length xs))"
  by (induction xss) simp_all

lemma priority_buckets_partition:
  "int (length issues) =
     int (length (filter (\<lambda>i. Priority i = 0) issues)) +
     int (length (filter (\<lambda>i. Priority i = 1) issues)) +
     int (length (filter (\<lambda>i. Priority i = 2) issues)) +
     int (length (filter (\<lambda>i. Priority i = 3) issues)) +
     int (length (filter (\<lambda>i. Priority i = 4) issues)) +
     int (length (filter (\<lambda>i. Priority i < 0 \<or> 4 < Priority i) issues))"
  by (induction issues) auto

subsection \<open>Sources of a report\<close>

lemma querySource_Name [simp]: "Name (querySource env name beadsPath) = name"
  by (simp add: querySource_def Let_def split: sum.splits)

lemma querySource_failed:
  "Blocked env beadsPath = Inl err \<Longrightarrow>
   querySource env name beadsPath = \<lparr>Name = name, Issues = None, Error = err\<rparr>"
  by (simp add: querySource_def)

lemma querySource_Error: "Error (querySource env name beadsPath) \<noteq> '''' \<Longrightarrow>
   Issues (querySource env name beadsPath) = None"
  by (simp add: querySource_def Let_def split: sum.splits)

lemma taskSource_Error:
  "Error (taskSource env townRoot t) \<noteq> '''' \<Longrightarrow> Issues (taskSource env townRoot t) = None"
  by (cases t) (simp_all add: querySource_Error)

lemma sortSourceIssues_simps [simp]:
  "Name (sortSourceIssues src) = Name src"
  "Error (sortSourceIssues src) = Error src"
  "len (Issues (sortSourceIssues src)) = len (Issues src)"
  "Issues (sortSourceIssues src) = None \<longleftrightarrow> Issues src = None"
  "mset (elems (Issues (sortSourceIssues src))) = mset (elems (Issues src))"
  by (cases "Issues src"; simp add: sortSourceIssues_def len_def elems_def)+

lemma buildReport_Inr:
  assumes "buildReport env blockedRig arrival = (tasks, Inr res)"
  obtains townRoot rigs0 rigs where
    "FindFromCwdOrError env = Inr townRoot"
    "DiscoverRigs env townRoot (rigsConfigOrEmpty env townRoot) = Inr rigs0"
    "selectRigs blockedRig rigs0 = Inr rigs"
    "tasks = launchedTasks blockedRig rigs"
    "Sources res = sortIssues (sort_Slice sourceLess (collectSources env townRoot tasks arrival))"
    "Summary res = computeSummary (Sources res)"
    "TownRoot res = townRoot"
  using assms unfolding buildReport_def Let_def
  by (auto split: sum.splits)

lemma report_source_origin:
  assumes "buildReport env blockedRig arrival = (tasks, Inr res)" and "src \<in> set (Sources res)"
  shows "\<exists>t. src = sortSourceIssues (taskSource env (TownRoot res) t)"
proof -
  from assms(1) obtain townRoot where
    s: "Sources res = sortIssues (sort_Slice sourceLess (collectSources env townRoot tasks arrival))"
    and t: "TownRoot res = townRoot"
    by (rule buildReport_Inr)
  from assms(2) show ?thesis
    unfolding s t sortIssues_def collectSources_def by auto
qed

lemma report_source_errored:
  assumes "buildReport env blockedRig arrival = (tasks, Inr res)" and "src \<in> set (Sources res)"
    and "Error src \<noteq> ''''"
  shows "Issues src = None"
  using report_source_origin [OF assms(1,2)] assms(3) taskSource_Error by auto

lemma report_Summary:
  assumes "buildReport env blockedRig arrival = (tasks, Inr res)"
  shows "Summary res = computeSummary (Sources res)"
  using assms by (rule buildReport_Inr)

lemma report_BySource:
  assumes "buildReport env blockedRig arrival = (tasks, Inr res)"
  shows "BySource (Summary res) n =
         map_option (\<lambda>src. int (len (Issues src))) (lastNamed n (Sources res))"
  unfolding report_Summary [OF assms] computeSummary_def summarize_loop_lastNamed
  by (simp split: option.splits)

lemma example_report_built:
  "buildReport example_env '''' [2, 0, 1] =
     ([TownTask, RigTask (example_rigs ! 0), RigTask (example_rigs ! 1)], Inr example_report)"
proof -
  have "\<not> isl (snd (buildReport example_env '''' [2, 0, 1]))"
    by code_simp
  moreover have "fst (buildReport example_env '''' [2, 0, 1]) =
      [TownTask, RigTask (example_rigs ! 0), RigTask (example_rigs ! 1)]"
    by code_simp
  ultimately show ?thesis
    unfolding example_report_def by (metis prod.collapse sum.collapse(2))
qed

lemma collision_report_town_first_built:
  "buildReport collision_env '''' [0, 1] =
     ([TownTask, RigTask (collision_rigs ! 0)], Inr collision_report_town_first)"
proof -
  have "\<not> isl (snd (buildReport collision_env '''' [0, 1]))"
    by code_simp
  moreover have "fst (buildReport collision_env '''' [0, 1]) =
      [TownTask, RigTask (collision_rigs ! 0)]"
    by code_simp
  ultimately show ?thesis
    unfolding collision_report_town_first_def by (metis prod.collapse sum.collapse(2))
qed

lemma collision_report_rig_first_built:
  "buildReport collision_env '''' [1, 0] =
     ([TownTask, RigTask (collision_rigs ! 0)], Inr collision_report_rig_first)"
proof -
  have "\<not> isl (snd (buildReport collision_env '''' [1, 0]))"
    by code_simp
  moreover have "fst (buildReport collision_env '''' [1, 0]) =
      [TownTask, RigTask (collision_rigs ! 0)]"
    by code_simp
  ultimately show ?thesis
    unfolding collision_report_rig_first_def by (metis prod.collapse sum.collapse(2))
qed


text \<open>
  C1. The total of a report's summary is the sum of the lengths of the issue lists of the
  sources without an error message. A source with an error message has a nil issue list,
  of length 0, so the total is also the sum over all sources.
\<close>

theorem summary_total_counts_unerrored_sources:
  assumes "buildReport env blockedRig arrival = (tasks, Inr res)"
  shows "Total (Summary res) =
           (\<Sum>src\<leftarrow>filter (\<lambda>src. Error src = '''') (Sources res). int (len (Issues src))) \<and>
         Total (Summary res) = (\<Sum>src\<leftarrow>Sources res. int (len (Issues src))) \<and>
         (\<forall>src \<in> set (Sources res). Error src \<noteq> '''' \<longrightarrow> Issues src = None \<and> len (Issues src) = 0)"
proof -
  have e: "Issues src = None \<and> len (Issues src) = 0"
    if "src \<in> set (Sources res)" and "Error src \<noteq> ''''" for src
    using report_source_errored [OF assms that] by (simp add: len_def)
  have t: "Total (Summary res) = (\<Sum>src\<leftarrow>Sources res. int (len (Issues src)))"
    unfolding report_Summary [OF assms] computeSummary_def summarize_loop_Total by simp
  have "(\<Sum>src\<leftarrow>Sources res. int (len (Issues src))) =
      (\<Sum>src\<leftarrow>filter (\<lambda>src. Error src = '''') (Sources res). int (len (Issues src)))"
    by (rule sum_list_filter_zero) (use e in \<open>auto simp: len_def\<close>)
  with t e show ?thesis by (auto simp: len_def)
qed

theorem summary_total_counts_unerrored_sources_witness:
  "buildReport example_env '''' [2, 0, 1] =
     ([TownTask, RigTask (example_rigs ! 0), RigTask (example_rigs ! 1)], Inr example_report) \<and>
   map Error (Sources example_report) = ['''', '''', ''database is locked''] \<and>
   map (\<lambda>src. len (Issues src)) (Sources example_report) = [2, 2, 0] \<and>
   Total (Summary example_report) = 4"
proof -
  have 1: "map Error (Sources example_report) = ['''', '''', ''database is locked'']"
    by code_simp
  have 2: "map (\<lambda>src. len (Issues src)) (Sources example_report) = [2, 2, 0]"
    by code_simp
  have 3: "(\<Sum>src\<leftarrow>filter (\<lambda>src. Error src = '''') (Sources example_report).
      int (len (Issues src))) = 4"
    by code_simp
  from summary_total_counts_unerrored_sources [OF example_report_built] 3
  have "Total (Summary example_report) = 4" by simp
  with example_report_built 1 2 show ?thesis by simp
qed

text \<open>
  C4, as the claim states it, fails for the per-source count. In the town whose only rig is
  named \<open>town\<close>, when the rig's failing query completes before the town store's, the
  town store's source is first in the report and holds an item of priority 9. The item is
  counted in the total, which is 3, but the count kept under the name of its source is 0:
  the second source of the same name, the errored one, has overwritten it.
\<close>

theorem priority_nine_item_not_in_by_source:
  "buildReport collision_env '''' [1, 0] =
     ([TownTask, RigTask (collision_rigs ! 0)], Inr collision_report_rig_first) \<and>
   completion_order 2 [1, 0] \<and>
   Name (Sources collision_report_rig_first ! 0) = ''town'' \<and>
   map Priority (elems (Issues (Sources collision_report_rig_first ! 0))) = [0, 1, 9] \<and>
   Total (Summary collision_report_rig_first) = 3 \<and>
   BySource (Summary collision_report_rig_first) (Name (Sources collision_report_rig_first ! 0))
     = Some 0"
proof -
  have 1: "completion_order 2 [1, 0]"
    by (simp add: completion_order_def upt_rec numeral_2_eq_2)
  have 2: "Name (Sources collision_report_rig_first ! 0) = ''town''"
    by code_simp
  have 3: "map Priority (elems (Issues (Sources collision_report_rig_first ! 0))) = [0, 1, 9]"
    by code_simp
  have 4: "Total (Summary collision_report_rig_first) = 3"
    by code_simp
  have 5: "BySource (Summary collision_report_rig_first)
      (Name (Sources collision_report_rig_first ! 0)) = Some 0"
    by code_simp
  from collision_report_rig_first_built 1 2 3 4 5 show ?thesis by simp
qed

text \<open>
  C4, amended. Each of the five priority counters is the number of items of the report whose
  priority is that bucket's value. The total counts every item, so it exceeds the sum of the
  five counters by the number of items whose priority lies outside 0..4; the counters sum to
  less than the total exactly when the report holds such an item. The per-source count kept
  under a name is the length of the whole item list, whatever the priorities, of the last
  source of that name in the report; so every item is counted in the per-source count of its
  source when that source is the last of its name, in particular when the source names are
  pairwise distinct.
\<close>

theorem priority_buckets_exact:
  assumes "buildReport env blockedRig arrival = (tasks, Inr res)"
  shows "P0Count (Summary res) = int (length (filter (\<lambda>i. Priority i = 0) (reportItems res))) \<and>
         P1Count (Summary res) = int (length (filter (\<lambda>i. Priority i = 1) (reportItems res))) \<and>
         P2Count (Summary res) = int (length (filter (\<lambda>i. Priority i = 2) (reportItems res))) \<and>
         P3Count (Summary res) = int (length (filter (\<lambda>i. Priority i = 3) (reportItems res))) \<and>
         P4Count (Summary res) = int (length (filter (\<lambda>i. Priority i = 4) (reportItems res))) \<and>
         Total (Summary res) = int (length (reportItems res)) \<and>
         Total (Summary res) =
           P0Count (Summary res) + P1Count (Summary res) + P2Count (Summary res) +
           P3Count (Summary res) + P4Count (Summary res) +
           int (length (filter (\<lambda>i. Priority i < 0 \<or> 4 < Priority i) (reportItems res))) \<and>
         ((\<exists>i \<in> set (reportItems res). Priority i < 0 \<or> 4 < Priority i) \<longleftrightarrow>
            P0Count (Summary res) + P1Count (Summary res) + P2Count (Summary res) +
            P3Count (Summary res) + P4Count (Summary res) < Total (Summary res)) \<and>
         (\<forall>src \<in> set (Sources res).
            lastNamed (Name src) (Sources res) = Some src \<longrightarrow>
            BySource (Summary res) (Name src) = Some (int (length (elems (Issues src))))) \<and>
         (distinct (map Name (Sources res)) \<longrightarrow>
            (\<forall>src \<in> set (Sources res).
               BySource (Summary res) (Name src) = Some (int (length (elems (Issues src))))))"
proof -
  note s = report_Summary [OF assms]
  have c: "P0Count (Summary res) = int (length (filter (\<lambda>i. Priority i = 0) (reportItems res)))"
    "P1Count (Summary res) = int (length (filter (\<lambda>i. Priority i = 1) (reportItems res)))"
    "P2Count (Summary res) = int (length (filter (\<lambda>i. Priority i = 2) (reportItems res)))"
    "P3Count (Summary res) = int (length (filter (\<lambda>i. Priority i = 3) (reportItems res)))"
    "P4Count (Summary res) = int (length (filter (\<lambda>i. Priority i = 4) (reportItems res)))"
    unfolding s computeSummary_def reportItems_def by (simp_all add: summarize_loop_counts)
  have t: "Total (Summary res) = int (length (reportItems res))"
    unfolding s computeSummary_def reportItems_def summarize_loop_Total
    by (simp add: length_concat_sum len_elems comp_def)
  have p: "Total (Summary res) =
      P0Count (Summary res) + P1Count (Summary res) + P2Count (Summary res) +
      P3Count (Summary res) + P4Count (Summary res) +
      int (length (filter (\<lambda>i. Priority i < 0 \<or> 4 < Priority i) (reportItems res)))"
    unfolding t c by (rule priority_buckets_partition)
  have "(\<exists>i \<in> set (reportItems res). Priority i < 0 \<or> 4 < Priority i) \<longleftrightarrow>
      0 < length (filter (\<lambda>i. Priority i < 0 \<or> 4 < Priority i) (reportItems res))"
    by (simp add: filter_empty_conv)
  also have "\<dots> \<longleftrightarrow> P0Count (Summary res) + P1Count (Summary res) + P2Count (Summary res) +
      P3Count (Summary res) + P4Count (Summary res) < Total (Summary res)"
    using p by linarith
  finally have o: "(\<exists>i \<in> set (reportItems res). Priority i < 0 \<or> 4 < Priority i) \<longleftrightarrow>
      P0Count (Summary res) + P1Count (Summary res) + P2Count (Summary res) +
      P3Count (Summary res) + P4Count (Summary res) < Total (Summary res)" .
  have b: "BySource (Summary res) (Name src) = Some (int (length (elems (Issues src))))"
    if "distinct (map Name (Sources res))" and "src \<in> set (Sources res)" for src
    unfolding s computeSummary_def using summarize_loop_BySource [OF that] by (simp add: len_elems)
  have l: "BySource (Summary res) (Name src) = Some (int (length (elems (Issues src))))"
    if "lastNamed (Name src) (Sources res) = Some src" for src
    using report_BySource [OF assms, of "Name src"] that by (simp add: len_elems)
  from c t p o b l show ?thesis by blast
qed

theorem priority_buckets_exact_witness:
  "buildReport example_env '''' [2, 0, 1] =
     ([TownTask, RigTask (example_rigs ! 0), RigTask (example_rigs ! 1)], Inr example_report) \<and>
   map Priority (reportItems example_report) = [0, 2, 1, 7] \<and>
   distinct (map Name (Sources example_report)) \<and>
   Sources example_report ! 1 \<in> set (Sources example_report) \<and>
   lastNamed ''alpha'' (Sources example_report) = Some (Sources example_report ! 1) \<and>
   map Priority (elems (Issues (Sources example_report ! 1))) = [1, 7] \<and>
   P0Count (Summary example_report) = 1 \<and> P1Count (Summary example_report) = 1 \<and>
   P2Count (Summary example_report) = 1 \<and> P3Count (Summary example_report) = 0 \<and>
   P4Count (Summary example_report) = 0 \<and> Total (Summary example_report) = 4 \<and>
   BySource (Summary example_report) ''alpha'' = Some 2"
proof -
  have 1: "map Priority (reportItems example_report) = [0, 2, 1, 7]"
    by code_simp
  have 2: "distinct (map Name (Sources example_report))"
    by code_simp
  have 3: "(Sources example_report) ! 1 \<in> set (Sources example_report)"
    "Name ((Sources example_report) ! 1) = ''alpha''"
    "length (elems (Issues ((Sources example_report) ! 1))) = 2"
    by code_simp+
  have 4: "length (filter (\<lambda>i. Priority i = 0) (reportItems example_report)) = 1"
    "length (filter (\<lambda>i. Priority i = 1) (reportItems example_report)) = 1"
    "length (filter (\<lambda>i. Priority i = 2) (reportItems example_report)) = 1"
    "length (filter (\<lambda>i. Priority i = 3) (reportItems example_report)) = 0"
    "length (filter (\<lambda>i. Priority i = 4) (reportItems example_report)) = 0"
    "length (reportItems example_report) = 4"
    by code_simp+
  note th = priority_buckets_exact [OF example_report_built]
  have 5: "P0Count (Summary example_report) = 1" "P1Count (Summary example_report) = 1"
    "P2Count (Summary example_report) = 1" "P3Count (Summary example_report) = 0"
    "P4Count (Summary example_report) = 0" "Total (Summary example_report) = 4"
    using th by (simp_all only: 4 of_nat_numeral of_nat_1 of_nat_0)
  from th 2 have "\<forall>src \<in> set (Sources example_report).
      BySource (Summary example_report) (Name src) = Some (int (length (elems (Issues src))))"
    by blast
  with 3 have 6: "BySource (Summary example_report) ''alpha'' = Some 2"
    by (metis of_nat_numeral)
  have 7: "lastNamed ''alpha'' (Sources example_report) = Some (Sources example_report ! 1)"
    "map Priority (elems (Issues (Sources example_report ! 1))) = [1, 7]"
    by code_simp+
  from example_report_built 1 2 3(1) 5 6 7 show ?thesis by blast
qed

lemma sort_Slice_singleton: "sort_Slice lessf [x] = [x]"
proof -
  have "mset (sort_Slice lessf [x]) = {#x#}" by simp
  then show ?thesis by (rule mset_single_iff [THEN iffD1])
qed

lemma filterRigs_filter:
  "filterRigs blockedRig rigs = take 1 (filter (\<lambda>r. Rig_Name r = blockedRig) rigs)"
  by (induction rigs) simp_all

lemma selectRigs_not_found:
  "blockedRig \<noteq> '''' \<Longrightarrow> blockedRig \<notin> set (map Rig_Name rigs) \<Longrightarrow>
   selectRigs blockedRig rigs = Inl (''rig not found: '' @ blockedRig)"
proof -
  assume a: "blockedRig \<noteq> ''''" "blockedRig \<notin> set (map Rig_Name rigs)"
  then have "filter (\<lambda>r. Rig_Name r = blockedRig) rigs = []"
    by (auto simp: filter_empty_conv)
  with a show ?thesis by (simp add: selectRigs_def filterRigs_filter)
qed

lemma selectRigs_found:
  "blockedRig \<noteq> '''' \<Longrightarrow> filter (\<lambda>r. Rig_Name r = blockedRig) rigs = r # rest \<Longrightarrow>
   selectRigs blockedRig rigs = Inr [r]"
  by (simp add: selectRigs_def filterRigs_filter)

lemma selectRigs_Inr:
  assumes "selectRigs blockedRig rigs0 = Inr rigs"
  shows "if blockedRig = '''' then rigs = rigs0
         else \<exists>r. rigs = [r] \<and> r \<in> set rigs0 \<and> Rig_Name r = blockedRig"
proof (cases "blockedRig = ''''")
  case True
  with assms show ?thesis by (simp add: selectRigs_def)
next
  case False
  show ?thesis
  proof (cases "filter (\<lambda>r. Rig_Name r = blockedRig) rigs0")
    case Nil
    with False assms show ?thesis by (simp add: selectRigs_def filterRigs_filter)
  next
    case (Cons r rest)
    then have "r \<in> set (filter (\<lambda>r. Rig_Name r = blockedRig) rigs0)" by simp
    then have "r \<in> set rigs0" "Rig_Name r = blockedRig" by auto
    moreover from selectRigs_found [OF False Cons] assms have "rigs = [r]" by simp
    ultimately show ?thesis using False by simp
  qed
qed


text \<open>
  C10, as the claim states it, fails for the count of an errored source. In the town whose
  only rig is named \<open>town\<close> and has a failing store, when the town store's query completes
  first, the errored source of the rig is first in the report, yet the by-source map sends
  its name to 3, the number of items of the town store's source, which has the same name and
  comes after it.
\<close>

theorem errored_source_mapped_to_three:
  "buildReport collision_env '''' [0, 1] =
     ([TownTask, RigTask (collision_rigs ! 0)], Inr collision_report_town_first) \<and>
   completion_order 2 [0, 1] \<and>
   Name (Sources collision_report_town_first ! 0) = ''town'' \<and>
   Error (Sources collision_report_town_first ! 0) = ''database is locked'' \<and>
   Issues (Sources collision_report_town_first ! 0) = None \<and>
   BySource (Summary collision_report_town_first)
     (Name (Sources collision_report_town_first ! 0)) = Some 3"
proof -
  have 1: "completion_order 2 [0, 1]"
    by (simp add: completion_order_def upt_rec numeral_2_eq_2)
  have 2: "Name (Sources collision_report_town_first ! 0) = ''town''"
    by code_simp
  have 3: "Error (Sources collision_report_town_first ! 0) = ''database is locked''"
    by code_simp
  have 4: "Issues (Sources collision_report_town_first ! 0) = None"
    by code_simp
  have 5: "BySource (Summary collision_report_town_first)
      (Name (Sources collision_report_town_first ! 0)) = Some 3"
    by code_simp
  from collision_report_town_first_built 1 2 3 4 5 show ?thesis by simp
qed

text \<open>
  C10, amended. The by-source map of a report's summary has exactly the names of the
  report's sources as its keys, so it has an entry for every source, errored or not. Each
  name is mapped to the length of the item list of the last source of that name in the
  report. A source that is the last of its name, and every source when the names are
  pairwise distinct, is therefore mapped to the length of its own item list, which is 0 for
  a source whose query failed (nil item list).
\<close>

theorem by_source_has_every_source:
  assumes "buildReport env blockedRig arrival = (tasks, Inr res)"
  shows "dom (BySource (Summary res)) = set (map Name (Sources res)) \<and>
         (\<forall>n. BySource (Summary res) n =
            map_option (\<lambda>src. int (len (Issues src))) (lastNamed n (Sources res))) \<and>
         (\<forall>src \<in> set (Sources res).
            lastNamed (Name src) (Sources res) = Some src \<longrightarrow>
            BySource (Summary res) (Name src) = Some (int (len (Issues src))) \<and>
            (Error src \<noteq> '''' \<or> Issues src = None \<longrightarrow>
               BySource (Summary res) (Name src) = Some 0)) \<and>
         (distinct (map Name (Sources res)) \<longrightarrow>
            (\<forall>src \<in> set (Sources res).
               BySource (Summary res) (Name src) = Some (int (len (Issues src))) \<and>
               (Error src \<noteq> '''' \<or> Issues src = None \<longrightarrow>
                  BySource (Summary res) (Name src) = Some 0)))"
proof -
  note s = report_Summary [OF assms]
  have d: "dom (BySource (Summary res)) = set (map Name (Sources res))"
    unfolding s computeSummary_def summarize_loop_dom by simp
  have b: "BySource (Summary res) (Name src) = Some (int (len (Issues src)))"
    if "distinct (map Name (Sources res))" and "src \<in> set (Sources res)" for src
    unfolding s computeSummary_def using summarize_loop_BySource [OF that] by simp
  have z: "len (Issues src) = 0"
    if "src \<in> set (Sources res)" and "Error src \<noteq> '''' \<or> Issues src = None" for src
    using report_source_errored [OF assms that(1)] that(2) by (auto simp: len_def)
  have bz: "BySource (Summary res) (Name src) = Some 0"
    if "distinct (map Name (Sources res))" and "src \<in> set (Sources res)"
      and "Error src \<noteq> '''' \<or> Issues src = None" for src
    using b [OF that(1,2)] z [OF that(2,3)] by simp
  have n: "BySource (Summary res) n =
      map_option (\<lambda>src. int (len (Issues src))) (lastNamed n (Sources res))" for n
    by (rule report_BySource [OF assms])
  have l: "BySource (Summary res) (Name src) = Some (int (len (Issues src)))"
    if "lastNamed (Name src) (Sources res) = Some src" for src
    using n [of "Name src"] that by simp
  have lz: "BySource (Summary res) (Name src) = Some 0"
    if "src \<in> set (Sources res)" and "lastNamed (Name src) (Sources res) = Some src"
      and "Error src \<noteq> '''' \<or> Issues src = None" for src
    using l [OF that(2)] z [OF that(1,3)] by simp
  from d n l lz b bz show ?thesis by blast
qed

theorem by_source_has_every_source_witness:
  "buildReport example_env '''' [2, 0, 1] =
     ([TownTask, RigTask (example_rigs ! 0), RigTask (example_rigs ! 1)], Inr example_report) \<and>
   distinct (map Name (Sources example_report)) \<and>
   Sources example_report ! 2 \<in> set (Sources example_report) \<and>
   Name (Sources example_report ! 2) = ''beta'' \<and>
   Error (Sources example_report ! 2) \<noteq> '''' \<and>
   lastNamed ''beta'' (Sources example_report) = Some (Sources example_report ! 2) \<and>
   dom (BySource (Summary example_report)) = {''town'', ''alpha'', ''beta''} \<and>
   BySource (Summary example_report) ''beta'' = Some 0"
proof -
  have 1: "distinct (map Name (Sources example_report))"
    by code_simp
  have 2: "Sources example_report ! 2 \<in> set (Sources example_report)"
    "Name (Sources example_report ! 2) = ''beta''"
    "Error (Sources example_report ! 2) \<noteq> ''''"
    by code_simp+
  have 3: "set (map Name (Sources example_report)) = {''town'', ''alpha'', ''beta''}"
    by code_simp
  note th = by_source_has_every_source [OF example_report_built]
  from th 3 have 4: "dom (BySource (Summary example_report)) = {''town'', ''alpha'', ''beta''}"
    by simp
  from th 1 have "\<forall>src \<in> set (Sources example_report).
      Error src \<noteq> '''' \<or> Issues src = None \<longrightarrow>
      BySource (Summary example_report) (Name src) = Some 0"
    by blast
  with 2 have 5: "BySource (Summary example_report) ''beta'' = Some 0"
    by metis
  have 6: "lastNamed ''beta'' (Sources example_report) = Some (Sources example_report ! 2)"
    by code_simp
  from example_report_built 1 2 4 5 6 show ?thesis by blast
qed

text \<open>
  C6. With a rig filter that names no discovered rig, the command returns the error
  \<open>rig not found: <name>\<close> without launching any query and without output, and the process
  exits with status 1. With a filter that names exactly one discovered rig, that rig is the
  only task launched, and the report has the single source of that rig.
\<close>

theorem rig_filter_fails_or_selects:
  assumes "blockedRig \<noteq> ''''" and "FindFromCwdOrError env = Inr townRoot"
    and "DiscoverRigs env townRoot (rigsConfigOrEmpty env townRoot) = Inr rigs"
  shows "(blockedRig \<notin> set (map Rig_Name rigs) \<longrightarrow>
            runBlocked env st blockedJSON blockedRig arrival =
              ([], Inl (''rig not found: '' @ blockedRig)) \<and>
            Execute (snd (runBlocked env st blockedJSON blockedRig arrival)) = 1) \<and>
         (\<forall>r. filter (\<lambda>r'. Rig_Name r' = blockedRig) rigs = [r] \<longrightarrow>
            fst (runBlocked env st blockedJSON blockedRig arrival) = [RigTask r] \<and>
            (\<exists>res. buildReport env blockedRig arrival = ([RigTask r], Inr res) \<and>
               (completion_order 1 arrival \<longrightarrow>
                  Sources res =
                    [sortSourceIssues (querySource env blockedRig (Rig_BeadsPath r))])))"
proof -
  have nf: "runBlocked env st blockedJSON blockedRig arrival =
        ([], Inl (''rig not found: '' @ blockedRig)) \<and>
      Execute (snd (runBlocked env st blockedJSON blockedRig arrival)) = 1"
    if "blockedRig \<notin> set (map Rig_Name rigs)"
    using selectRigs_not_found [OF assms(1) that] assms(2,3)
    by (simp add: runBlocked_def buildReport_def Let_def Execute_def)
  have f: "fst (runBlocked env st blockedJSON blockedRig arrival) = [RigTask r] \<and>
      (\<exists>res. buildReport env blockedRig arrival = ([RigTask r], Inr res) \<and>
         (completion_order 1 arrival \<longrightarrow>
            Sources res = [sortSourceIssues (querySource env blockedRig (Rig_BeadsPath r))]))"
    if one: "filter (\<lambda>r'. Rig_Name r' = blockedRig) rigs = [r]" for r
  proof -
    from one have "r \<in> set (filter (\<lambda>r'. Rig_Name r' = blockedRig) rigs)" by simp
    then have name: "Rig_Name r = blockedRig" by simp
    have sel: "selectRigs blockedRig rigs = Inr [r]"
      using selectRigs_found [OF assms(1) one] .
    define res where "res = \<lparr>Sources = sortIssues (sort_Slice sourceLess
          (collectSources env townRoot [RigTask r] arrival)),
        Summary = computeSummary (sortIssues (sort_Slice sourceLess
          (collectSources env townRoot [RigTask r] arrival))),
        TownRoot = townRoot\<rparr>"
    have b: "buildReport env blockedRig arrival = ([RigTask r], Inr res)"
      using sel assms by (simp add: buildReport_def Let_def launchedTasks_def res_def)
    then have 1: "fst (runBlocked env st blockedJSON blockedRig arrival) = [RigTask r]"
      by (simp add: runBlocked_def)
    have 2: "Sources res = [sortSourceIssues (querySource env blockedRig (Rig_BeadsPath r))]"
      if "completion_order 1 arrival"
    proof -
      from that have "mset arrival = {#0#}" by (simp add: completion_order_def)
      then have "arrival = [0]" by (rule mset_single_iff [THEN iffD1])
      then show ?thesis
        by (simp add: res_def collectSources_def sort_Slice_singleton sortIssues_def name)
    qed
    from b 1 2 show ?thesis by blast
  qed
  from nf f show ?thesis by blast
qed

theorem rig_filter_fails_or_selects_witness:
  "''gamma'' \<noteq> '''' \<and> ''beta'' \<noteq> '''' \<and> FindFromCwdOrError example_env = Inr ''/gt'' \<and>
   DiscoverRigs example_env ''/gt'' (rigsConfigOrEmpty example_env ''/gt'') = Inr example_rigs \<and>
   ''gamma'' \<notin> set (map Rig_Name example_rigs) \<and>
   filter (\<lambda>r'. Rig_Name r' = ''beta'') example_rigs = [example_rigs ! 1] \<and>
   completion_order 1 [0] \<and>
   runBlocked example_env example_style False ''gamma'' [0] =
     ([], Inl ''rig not found: gamma'') \<and>
   Execute (snd (runBlocked example_env example_style False ''gamma'' [0])) = 1 \<and>
   fst (runBlocked example_env example_style False ''beta'' [0]) = [RigTask (example_rigs ! 1)]"
proof -
  have 1: "FindFromCwdOrError example_env = Inr ''/gt''"
    "DiscoverRigs example_env ''/gt'' (rigsConfigOrEmpty example_env ''/gt'') = Inr example_rigs"
    by (simp_all add: example_env_def)
  have 2: "''gamma'' \<notin> set (map Rig_Name example_rigs)"
    "filter (\<lambda>r'. Rig_Name r' = ''beta'') example_rigs = [example_rigs ! 1]"
    by (simp_all add: example_rigs_def)
  have 3: "completion_order 1 [0]"
    by (simp add: completion_order_def)
  have g: "''gamma'' \<noteq> ''''" and b: "''beta'' \<noteq> ''''" by simp_all
  from rig_filter_fails_or_selects [OF g 1, of example_style False "[0]"] 2(1)
  have "runBlocked example_env example_style False ''gamma'' [0] =
      ([], Inl (''rig not found: '' @ ''gamma'')) \<and>
    Execute (snd (runBlocked example_env example_style False ''gamma'' [0])) = 1"
    by blast
  then have 4: "runBlocked example_env example_style False ''gamma'' [0] =
      ([], Inl ''rig not found: gamma'')"
    "Execute (snd (runBlocked example_env example_style False ''gamma'' [0])) = 1"
    by (simp_all add: Execute_def)
  from rig_filter_fails_or_selects [OF b 1, of example_style False "[0]"] 2(2)
  have 5: "fst (runBlocked example_env example_style False ''beta'' [0]) =
      [RigTask (example_rigs ! 1)]"
    by blast
  from g b 1 2 3 4 5 show ?thesis by blast
qed


lemma report_tasks:
  assumes "buildReport env blockedRig arrival = (tasks, Inr res)"
  shows "if blockedRig = '''' then \<exists>rigs. tasks = TownTask # map RigTask rigs
         else \<exists>r. tasks = [RigTask r] \<and> Rig_Name r = blockedRig"
proof -
  from assms obtain rigs0 rigs where
    sel: "selectRigs blockedRig rigs0 = Inr rigs" and t: "tasks = launchedTasks blockedRig rigs"
    by (rule buildReport_Inr)
  from selectRigs_Inr [OF sel] t show ?thesis
    by (auto simp: launchedTasks_def split: if_splits)
qed










lemma issueLine_in_sourceLines:
  "Error src = '''' \<Longrightarrow> issue \<in> set (elems (Issues src)) \<Longrightarrow>
   issueLine st issue \<in> set (sourceLines st src)"
proof -
  assume a: "Error src = ''''" "issue \<in> set (elems (Issues src))"
  then have "len (Issues src) \<noteq> 0"
    by (auto simp: len_elems)
  with a show ?thesis by (simp add: sourceLines_def Let_def)
qed

lemma utf8_characters_le: "utf8_characters s \<le> length s"
  unfolding utf8_characters_def by (rule length_filter_le)

lemma utf8_characters_ascii:
  "\<forall>c \<in> set s. (of_char c :: nat) < 128 \<Longrightarrow> utf8_characters s = length s"
  unfolding utf8_characters_def by (induction s) simp_all

text \<open>
  C8, as the claim states it, fails for a title that has at most 60 characters but more
  than 60 bytes. A title of 31 times the letter e with acute accent (two bytes each in
  UTF-8, \<open>C3 A9\<close>) has 31 characters and 62 bytes. It is not printed unchanged: its line shows
  the first 28 letters, then the lone byte \<open>C3\<close>, the first half of the 29th, then three
  dots.
\<close>

theorem title_of_31_characters_cut:
  "utf8_characters (concat (replicate 31 [CHR 0xC3, CHR 0xA9])) = 31 \<and>
   length (concat (replicate 31 [CHR 0xC3, CHR 0xA9])) = 62 \<and>
   truncateTitle (concat (replicate 31 [CHR 0xC3, CHR 0xA9])) =
     concat (replicate 28 [CHR 0xC3, CHR 0xA9]) @ [CHR 0xC3] @ ''...'' \<and>
   issueLine example_style
     \<lparr>ID = ''gt-9'', Title = concat (replicate 31 [CHR 0xC3, CHR 0xA9]), Priority = 3,
      BlockedBy = []\<rparr> =
     ''  [P3] gt-9 '' @ concat (replicate 28 [CHR 0xC3, CHR 0xA9]) @ [CHR 0xC3] @ ''...''"
proof -
  have 1: "utf8_characters (concat (replicate 31 [CHR 0xC3, CHR 0xA9])) = 31"
    by code_simp
  have 2: "length (concat (replicate 31 [CHR 0xC3, CHR 0xA9])) = 62"
    by code_simp
  have 3: "truncateTitle (concat (replicate 31 [CHR 0xC3, CHR 0xA9])) =
      concat (replicate 28 [CHR 0xC3, CHR 0xA9]) @ [CHR 0xC3] @ ''...''"
    by code_simp
  have 4: "issueLine example_style
      \<lparr>ID = ''gt-9'', Title = concat (replicate 31 [CHR 0xC3, CHR 0xA9]), Priority = 3,
       BlockedBy = []\<rparr> =
      ''  [P3] gt-9 '' @ concat (replicate 28 [CHR 0xC3, CHR 0xA9]) @ [CHR 0xC3] @ ''...''"
    by code_simp
  from 1 2 3 4 show ?thesis by simp
qed

text \<open>
  C8, amended. In the human-readable report the line of an item shows its title through
  \<open>truncateTitle\<close>, which measures in bytes: a title of more than 60 bytes is cut to its
  first 57 bytes followed by three dots (60 bytes in all), and a title of 60 bytes or fewer
  is shown unchanged. A title of more than 60 characters has more than 60 bytes, so it is
  always cut; for a title of ASCII characters only, bytes and characters are the same, and
  the claim holds as it reads. Every item of every source without an error message gets
  such a line when the total is not 0.
\<close>

theorem title_truncated_in_item_line:
  "(length (Title issue) > 60 \<longrightarrow>
      truncateTitle (Title issue) = take 57 (Title issue) @ ''...'' \<and>
      length (truncateTitle (Title issue)) = 60) \<and>
   (length (Title issue) \<le> 60 \<longrightarrow> truncateTitle (Title issue) = Title issue) \<and>
   (utf8_characters (Title issue) > 60 \<longrightarrow>
      truncateTitle (Title issue) = take 57 (Title issue) @ ''...'') \<and>
   ((\<forall>c \<in> set (Title issue). (of_char c :: nat) < 128) \<longrightarrow>
      utf8_characters (Title issue) = length (Title issue) \<and>
      (utf8_characters (Title issue) \<le> 60 \<longrightarrow> truncateTitle (Title issue) = Title issue)) \<and>
   (\<exists>pre post. issueLine st issue = pre @ '' '' @ truncateTitle (Title issue) @ post \<and>
      post = (if length (BlockedBy issue) > 0
              then '' '' @ style_Dim st
                     (''(blocked by: '' @ strings_Join (BlockedBy issue) '', '' @ '')'')
              else '''')) \<and>
   (Total (Summary result) \<noteq> 0 \<and> src \<in> set (Sources result) \<and> Error src = '''' \<and>
    issue \<in> set (elems (Issues src)) \<longrightarrow>
      issueLine st issue \<in> set (printBlockedHuman st result))"
proof -
  have 1: "length (Title issue) > 60 \<longrightarrow>
      truncateTitle (Title issue) = take 57 (Title issue) @ ''...'' \<and>
      length (truncateTitle (Title issue)) = 60"
    by (simp add: truncateTitle_def)
  have 2: "length (Title issue) \<le> 60 \<longrightarrow> truncateTitle (Title issue) = Title issue"
    by (simp add: truncateTitle_def)
  have 5: "utf8_characters (Title issue) > 60 \<longrightarrow>
      truncateTitle (Title issue) = take 57 (Title issue) @ ''...''"
    using utf8_characters_le [of "Title issue"] by (simp add: truncateTitle_def)
  have 6: "(\<forall>c \<in> set (Title issue). (of_char c :: nat) < 128) \<longrightarrow>
      utf8_characters (Title issue) = length (Title issue) \<and>
      (utf8_characters (Title issue) \<le> 60 \<longrightarrow> truncateTitle (Title issue) = Title issue)"
    using utf8_characters_ascii [of "Title issue"] by (simp add: truncateTitle_def)
  define pre where "pre = ''  ['' @
      (if Priority issue = 0 then style_Error st (''P'' @ showInt (Priority issue))
       else if Priority issue = 1 then style_Error st (''P'' @ showInt (Priority issue))
       else if Priority issue = 2 then style_Warning st (''P'' @ showInt (Priority issue))
       else style_Dim st (''P'' @ showInt (Priority issue))) @ ''] '' @ style_Dim st (ID issue)"
  define post where "post = (if length (BlockedBy issue) > 0
              then '' '' @ style_Dim st
                     (''(blocked by: '' @ strings_Join (BlockedBy issue) '', '' @ '')'')
              else '''')"
  have "issueLine st issue = pre @ '' '' @ truncateTitle (Title issue) @ post"
    unfolding issueLine_def Let_def pre_def post_def by simp
  then have 3: "\<exists>pre post. issueLine st issue = pre @ '' '' @ truncateTitle (Title issue) @ post \<and>
      post = (if length (BlockedBy issue) > 0
              then '' '' @ style_Dim st
                     (''(blocked by: '' @ strings_Join (BlockedBy issue) '', '' @ '')'')
              else '''')"
    unfolding post_def by blast
  have 4: "issueLine st issue \<in> set (printBlockedHuman st result)"
    if "Total (Summary result) \<noteq> 0" "src \<in> set (Sources result)" "Error src = ''''"
      "issue \<in> set (elems (Issues src))"
    using that issueLine_in_sourceLines [OF that(3,4), of st]
    by (auto simp: printBlockedHuman_def)
  from 1 2 3 4 5 6 show ?thesis by blast
qed

theorem title_truncated_in_item_line_witness:
  "length (Title \<lparr>ID = ''gt-9'', Title = replicate 61 CHR ''x'', Priority = 3, BlockedBy = []\<rparr>) > 60 \<and>
   utf8_characters (Title \<lparr>ID = ''gt-9'', Title = replicate 61 CHR ''x'', Priority = 3, BlockedBy = []\<rparr>) > 60 \<and>
   truncateTitle (replicate 61 CHR ''x'') = replicate 57 CHR ''x'' @ ''...'' \<and>
   length (Title (hd (reportItems example_report))) \<le> 60 \<and>
   utf8_characters (Title (hd (reportItems example_report))) = 11 \<and>
   truncateTitle (Title (hd (reportItems example_report))) = ''Plan convoy'' \<and>
   Total (Summary example_report) \<noteq> 0 \<and>
   hd (Sources example_report) \<in> set (Sources example_report) \<and>
   Error (hd (Sources example_report)) = '''' \<and>
   hd (reportItems example_report) \<in> set (elems (Issues (hd (Sources example_report)))) \<and>
   ''  [P0] hq-1 Plan convoy (blocked by: gt-1)''
     \<in> set (printBlockedHuman example_style example_report)"
proof -
  let ?long = "\<lparr>ID = ''gt-9'', Title = replicate 61 CHR ''x'', Priority = 3, BlockedBy = []\<rparr>"
  have 1: "length (Title ?long) > 60" by simp
  from title_truncated_in_item_line [of ?long] 1
  have "truncateTitle (Title ?long) = take 57 (Title ?long) @ ''...''" by blast
  then have 2: "truncateTitle (replicate 61 CHR ''x'') = replicate 57 CHR ''x'' @ ''...''"
    by simp
  have 3: "length (Title (hd (reportItems example_report))) \<le> 60"
    "Title (hd (reportItems example_report)) = ''Plan convoy''"
    "Total (Summary example_report) \<noteq> 0"
    "hd (Sources example_report) \<in> set (Sources example_report)"
    "Error (hd (Sources example_report)) = ''''"
    "hd (reportItems example_report) \<in> set (elems (Issues (hd (Sources example_report))))"
    "issueLine example_style (hd (reportItems example_report)) =
       ''  [P0] hq-1 Plan convoy (blocked by: gt-1)''"
    by code_simp+
  note th = title_truncated_in_item_line [of "hd (reportItems example_report)" example_style
      example_report "hd (Sources example_report)"]
  from th 3(1) have "truncateTitle (Title (hd (reportItems example_report))) =
      Title (hd (reportItems example_report))"
    by blast
  with 3(2) have 4: "truncateTitle (Title (hd (reportItems example_report))) = ''Plan convoy''"
    by simp
  from th 3(3-6) have "issueLine example_style (hd (reportItems example_report))
      \<in> set (printBlockedHuman example_style example_report)"
    by blast
  with 3(7) have 5: "''  [P0] hq-1 Plan convoy (blocked by: gt-1)''
      \<in> set (printBlockedHuman example_style example_report)"
    by simp
  have 6: "utf8_characters (Title ?long) > 60"
    by code_simp
  have 7: "\<forall>c \<in> set (Title (hd (reportItems example_report))). (of_char c :: nat) < 128"
    unfolding 3(2) by simp
  from th 7 have "utf8_characters (Title (hd (reportItems example_report))) =
      length (Title (hd (reportItems example_report)))"
    by blast
  then have 8: "utf8_characters (Title (hd (reportItems example_report))) = 11"
    unfolding 3(2) by simp
  from 1 2 3 4 5 6 8 show ?thesis by blast
qed

end
